theory Spec2Isabelle
  imports Main "HOL-Library.Word"
begin

unbundle bit_operations_syntax

section \<open>Memory\<close>

text \<open>
  The allocator of \<^verbatim>\<open>include/malloc/malloc.hpp\<close> keeps all of its bookkeeping inside the
  bytes of the region it manages, and reinterprets the same bytes as a free node
  (\<^verbatim>\<open>MemBlock\<close>), as a block header (\<^verbatim>\<open>MemBlockHeader\<close>) and as a single count byte.
  The model therefore is a byte-addressed memory indexed by 64-bit addresses, with
  little-endian loads and stores of 1, 4 and 8 bytes. \<^verbatim>\<open>std::size_t\<close>, \<^verbatim>\<open>std::uintptr_t\<close>
  and pointers are 64-bit words (arithmetic wraps), \<^verbatim>\<open>int\<close> is a 32-bit word and
  \<^verbatim>\<open>uint8_t\<close> an 8-bit word; \<^verbatim>\<open>nullptr\<close> is address 0.
\<close>

type_synonym addr = "64 word"
type_synonym size_t = "64 word"
type_synonym byte = "8 word"
type_synonym mem = "addr \<Rightarrow> byte"

definition store :: "mem \<Rightarrow> addr \<Rightarrow> byte list \<Rightarrow> mem" where
  "store m a bs = (\<lambda>x. if x - a < of_nat (length bs) then bs ! unat (x - a) else m x)"

definition load :: "mem \<Rightarrow> addr \<Rightarrow> nat \<Rightarrow> byte list" where
  "load m a n = map (\<lambda>i. m (a + of_nat i)) [0..<n]"

definition to_le :: "nat \<Rightarrow> 'a::len word \<Rightarrow> byte list" where
  "to_le n v = map (\<lambda>i. ucast (drop_bit (8 * i) v)) [0..<n]"

definition from_le :: "byte list \<Rightarrow> 'a::len word" where
  "from_le bs = word_of_int (horner_sum uint (2 ^ 8) bs)"

definition read64 :: "mem \<Rightarrow> addr \<Rightarrow> 64 word" where
  "read64 m a = from_le (load m a 8)"

definition write64 :: "mem \<Rightarrow> addr \<Rightarrow> 64 word \<Rightarrow> mem" where
  "write64 m a v = store m a (to_le 8 v)"

definition read32 :: "mem \<Rightarrow> addr \<Rightarrow> 32 word" where
  "read32 m a = from_le (load m a 4)"

definition write32 :: "mem \<Rightarrow> addr \<Rightarrow> 32 word \<Rightarrow> mem" where
  "write32 m a v = store m a (to_le 4 v)"

definition read8 :: "mem \<Rightarrow> addr \<Rightarrow> byte" where
  "read8 m a = m a"

definition write8 :: "mem \<Rightarrow> addr \<Rightarrow> byte \<Rightarrow> mem" where
  "write8 m a v = store m a [v]"

section \<open>The two records threaded through the region\<close>

text \<open>
  \<^verbatim>\<open>struct MemBlock { std::size_t size; MemBlock* next; }\<close> has \<^verbatim>\<open>size\<close> at offset 0 and
  \<^verbatim>\<open>next\<close> at offset 8; \<^verbatim>\<open>struct MemBlockHeader { int magic; std::size_t size; }\<close> has
  \<^verbatim>\<open>magic\<close> at offset 0 (4 bytes, then 4 bytes of padding) and \<^verbatim>\<open>size\<close> at offset 8.
  Both are 16 bytes (LP64). \<^verbatim>\<open>kMemMagicNum\<close> is the \<^verbatim>\<open>int\<close> with bit pattern 0xDEADBEEF.
\<close>

definition sizeof_MemBlock :: size_t where
  "sizeof_MemBlock = 16"

definition sizeof_MemBlockHeader :: size_t where
  "sizeof_MemBlockHeader = 16"

definition kMemMagicNum :: "32 word" where
  "kMemMagicNum = 0xDEADBEEF"

definition blk_size :: "mem \<Rightarrow> addr \<Rightarrow> size_t" where
  "blk_size m p = read64 m p"

definition blk_next :: "mem \<Rightarrow> addr \<Rightarrow> addr" where
  "blk_next m p = read64 m (p + 8)"

definition set_blk_size :: "mem \<Rightarrow> addr \<Rightarrow> size_t \<Rightarrow> mem" where
  "set_blk_size m p v = write64 m p v"

definition set_blk_next :: "mem \<Rightarrow> addr \<Rightarrow> addr \<Rightarrow> mem" where
  "set_blk_next m p v = write64 m (p + 8) v"

definition hdr_magic :: "mem \<Rightarrow> addr \<Rightarrow> 32 word" where
  "hdr_magic m p = read32 m p"

definition hdr_size :: "mem \<Rightarrow> addr \<Rightarrow> size_t" where
  "hdr_size m p = read64 m (p + 8)"

definition set_hdr_magic :: "mem \<Rightarrow> addr \<Rightarrow> 32 word \<Rightarrow> mem" where
  "set_hdr_magic m p v = write32 m p v"

definition set_hdr_size :: "mem \<Rightarrow> addr \<Rightarrow> size_t \<Rightarrow> mem" where
  "set_hdr_size m p v = write64 m (p + 8) v"

section \<open>The allocator object\<close>

text \<open>The members \<^verbatim>\<open>region_size_\<close>, \<^verbatim>\<open>mmap_start_\<close> and \<^verbatim>\<open>head_\<close> of \<^verbatim>\<open>Malloc<N>\<close>.\<close>

record alloc =
  region_size :: size_t
  mmap_start :: addr
  head :: addr

datatype error =
    InvalidArgument string   \<comment> \<open>\<^verbatim>\<open>std::invalid_argument\<close>\<close>
  | RuntimeError string      \<comment> \<open>\<^verbatim>\<open>std::runtime_error\<close>\<close>
  | Segfault                 \<comment> \<open>not an exception: a store through \<^verbatim>\<open>nullptr - 1\<close>\<close>

definition RegionSize :: "alloc \<Rightarrow> size_t" where
  "RegionSize a = region_size a"

definition IsPowerOfTwo :: "size_t \<Rightarrow> bool" where
  "IsPowerOfTwo n = (n \<noteq> 0 \<and> (n AND (n - 1)) = 0)"

text \<open>
  Both list walks start from a stack node \<^verbatim>\<open>dummy\<close> whose \<^verbatim>\<open>next\<close> is \<^verbatim>\<open>head_\<close>, and carry
  \<^verbatim>\<open>prev\<close>, which is either \<^verbatim>\<open>&dummy\<close> (\<open>None\<close>) or a node in memory. \<open>set_prev_next\<close> is
  the assignment \<^verbatim>\<open>prev->next = v\<close>: it returns the memory and the value of \<^verbatim>\<open>dummy.next\<close>.
\<close>

definition set_prev_next :: "mem \<Rightarrow> addr \<Rightarrow> addr option \<Rightarrow> addr \<Rightarrow> mem \<times> addr" where
  "set_prev_next m dummy_next prev v =
     (case prev of None \<Rightarrow> (m, v) | Some p \<Rightarrow> (set_blk_next m p v, dummy_next))"

subsection \<open>InsertFreeMemBlock\<close>

partial_function (option) insert_walk ::
  "mem \<Rightarrow> addr \<Rightarrow> addr \<Rightarrow> addr \<Rightarrow> addr option \<Rightarrow> addr \<Rightarrow> (mem \<times> addr \<times> addr option \<times> bool) option"
where
  "insert_walk m dummy_next block block_end_addr prev cur =
     (if cur = 0 then Some (m, dummy_next, prev, False)
      else if block_end_addr \<le> cur then
        (let m1 = set_blk_next m block cur;
             (m2, dn) = set_prev_next m1 dummy_next prev block
         in Some (m2, dn, prev, True))
      else insert_walk m dummy_next block block_end_addr (Some cur) (blk_next m cur))"

declare insert_walk.simps [code]

definition InsertFreeMemBlock :: "mem \<Rightarrow> alloc \<Rightarrow> addr \<Rightarrow> (mem \<times> alloc) option" where
  "InsertFreeMemBlock m a block =
     (let block_end_addr = block + blk_size m block in
      case insert_walk m (head a) block block_end_addr None (head a) of
        None \<Rightarrow> None
      | Some (m1, dn, prev, inserted) \<Rightarrow>
          if \<not> inserted then
            (let (m2, dn2) = set_prev_next m1 dn prev block;
                 m3 = set_blk_next m2 block 0
             in Some (m3, a\<lparr>head := dn2\<rparr>))
          else Some (m1, a\<lparr>head := dn\<rparr>))"

subsection \<open>MergeFreeBlocks\<close>

partial_function (option) merge_walk :: "mem \<Rightarrow> addr \<Rightarrow> mem option" where
  "merge_walk m cur =
     (if blk_next m cur = 0 then Some m
      else
        (let adj_addr = cur + blk_size m cur;
             next_addr = blk_next m cur
         in if adj_addr = next_addr then
              (let old_next = blk_next m cur;
                   m1 = set_blk_next m cur (blk_next m (blk_next m cur));
                   m2 = set_blk_size m1 cur (blk_size m1 cur + blk_size m1 old_next)
               in merge_walk m2 cur)
            else merge_walk m (blk_next m cur)))"

declare merge_walk.simps [code]

definition MergeFreeBlocks :: "mem \<Rightarrow> alloc \<Rightarrow> mem option" where
  "MergeFreeBlocks m a = (if head a = 0 then Some m else merge_walk m (head a))"

text \<open>
  The documented copy of the header that the repository also carries has the same
  \<^verbatim>\<open>MergeFreeBlocks\<close> without its first line. There the loop test \<^verbatim>\<open>curr->next\<close> is a load
  through \<^verbatim>\<open>curr\<close> whatever \<^verbatim>\<open>head_\<close> is: through null when the list is empty.
\<close>

definition MergeFreeBlocks_unguarded :: "mem \<Rightarrow> alloc \<Rightarrow> (error + mem) option" where
  "MergeFreeBlocks_unguarded m a =
     (if head a = 0 then Some (Inl Segfault) else map_option Inr (merge_walk m (head a)))"

subsection \<open>Alloc\<close>

text \<open>
  \<^verbatim>\<open>std::align(alignment, size, ptr, space)\<close> of \<^verbatim>\<open><memory>\<close> is library code, not part of
  the repository. It returns null and leaves \<^verbatim>\<open>space\<close> alone when \<^verbatim>\<open>size\<close> bytes do not
  fit after aligning; otherwise it returns the aligned pointer and decreases \<^verbatim>\<open>space\<close>
  by the bytes skipped. The result is the pair of the pointer and the new \<^verbatim>\<open>space\<close>.
\<close>

definition std_align :: "size_t \<Rightarrow> size_t \<Rightarrow> addr \<Rightarrow> size_t \<Rightarrow> addr \<times> size_t" where
  "std_align alignment sz ptr space =
     (if space < sz then (0, space)
      else
        (let aligned = (ptr - 1 + alignment) AND (- alignment);
             diff = aligned - ptr
         in if diff > space - sz then (0, space) else (aligned, space - diff)))"

definition req_space :: "size_t \<Rightarrow> size_t \<Rightarrow> size_t" where
  "req_space sz alignment = sz + sizeof_MemBlock + alignment + 1"

partial_function (option) alloc_walk ::
  "mem \<Rightarrow> size_t \<Rightarrow> addr option \<Rightarrow> addr \<Rightarrow> (addr option \<times> addr) option"
where
  "alloc_walk m req prev cur =
     (if cur = 0 then Some (prev, cur)
      else if blk_size m cur \<ge> req then Some (prev, cur)
      else alloc_walk m req (Some cur) (blk_next m cur))"

declare alloc_walk.simps [code]

text \<open>
  The part of \<^verbatim>\<open>Alloc\<close> that follows the search: split or consume the node \<^verbatim>\<open>curr\<close> (here \<open>cur\<close>), update
  \<^verbatim>\<open>head_\<close>, lay the header down, align, store the count byte. When \<^verbatim>\<open>std::align\<close> returns
  null the source stores through \<^verbatim>\<open>nullptr - 1\<close>; that is the result \<open>Segfault\<close>.
\<close>

definition alloc_split :: "mem \<Rightarrow> alloc \<Rightarrow> size_t \<Rightarrow> addr option \<Rightarrow> addr \<Rightarrow> mem \<times> alloc" where
  "alloc_split m a req prev cur =
     (let (m1, dn) =
        (if req < blk_size m cur then
           (let split_node = cur + req;
                m' = set_blk_size m split_node (blk_size m cur - req);
                m'' = set_blk_next m' split_node (blk_next m' cur)
            in set_prev_next m'' (head a) prev split_node)
         else set_prev_next m (head a) prev (blk_next m cur))
      in (m1, a\<lparr>head := dn\<rparr>))"

definition alloc_layout :: "mem \<Rightarrow> size_t \<Rightarrow> size_t \<Rightarrow> addr \<Rightarrow> (error + addr) \<times> mem" where
  "alloc_layout m req alignment cur =
     (let header = cur;
          m2 = set_hdr_size m header (req - sizeof_MemBlockHeader);
          m3 = set_hdr_magic m2 header kMemMagicNum;
          user_ptr = header + sizeof_MemBlockHeader + 1;
          total_space = hdr_size m3 header - 1;
          total_space_copy = hdr_size m3 header - 1;
          (user_ptr', total_space') =
             std_align alignment (total_space - alignment) user_ptr total_space
      in if user_ptr' = 0 then (Inl Segfault, m3)
         else (Inr user_ptr',
               write8 m3 (user_ptr' - 1) (ucast (total_space_copy - total_space'))))"

definition Alloc :: "mem \<Rightarrow> alloc \<Rightarrow> size_t \<Rightarrow> size_t \<Rightarrow> ((error + addr) \<times> mem \<times> alloc) option" where
  "Alloc m a sz alignment =
     (if sz \<le> 0 then
        Some (Inl (InvalidArgument ''size must be a positive integer''), m, a)
      else if alignment = 0 \<or> \<not> IsPowerOfTwo alignment then
        Some (Inl (InvalidArgument ''alignment must be a power of 2''), m, a)
      else
        (let req = req_space sz alignment in
         case alloc_walk m req None (head a) of
           None \<Rightarrow> None
         | Some (prev, cur) \<Rightarrow>
             if cur = 0 then Some (Inr 0, m, a)
             else
               (let (m1, a1) = alloc_split m a req prev cur;
                    (r, m2) = alloc_layout m1 req alignment cur
                in Some (r, m2, a1))))"

subsection \<open>Free\<close>

definition Free :: "mem \<Rightarrow> alloc \<Rightarrow> addr \<Rightarrow> ((error + unit) \<times> mem \<times> alloc) option" where
  "Free m a block =
     (if block = 0 then
        Some (Inl (RuntimeError ''cannot free NULL mem block''), m, a)
      else
        (let alignment_byte_cnt = read8 m (block - 1);
             header = block - sizeof_MemBlockHeader - ucast alignment_byte_cnt - 1
         in if hdr_magic m header \<noteq> kMemMagicNum then
              Some (Inl (RuntimeError ''invalid mem block magic number''), m, a)
            else
              (let insert_block = header;
                   m1 = set_blk_size m insert_block (hdr_size m header + sizeof_MemBlockHeader);
                   m2 = set_blk_next m1 insert_block 0
               in case InsertFreeMemBlock m2 a insert_block of
                    None \<Rightarrow> None
                  | Some (m3, a3) \<Rightarrow>
                      (case MergeFreeBlocks m3 a3 of
                         None \<Rightarrow> None
                       | Some m4 \<Rightarrow> Some (Inr (), m4, a3)))))"

subsection \<open>Construction, destruction, move\<close>

text \<open>
  \<^verbatim>\<open>mmap\<close>, \<^verbatim>\<open>munmap\<close> and \<^verbatim>\<open>getpagesize\<close> belong to the operating system, not to the
  repository. The model keeps the list of live mappings as the only OS state. The address
  \<^verbatim>\<open>mmap\<close> returns is chosen by the OS and is a parameter of the constructor; POSIX has
  \<^verbatim>\<open>mmap\<close> return \<^verbatim>\<open>MAP_FAILED\<close>, that is \<^verbatim>\<open>(void *) -1\<close>, when it refuses the request, and
  then nothing is mapped. The page size is a parameter too (the \<^verbatim>\<open>int\<close> returned by
  \<^verbatim>\<open>getpagesize\<close>, converted to \<^verbatim>\<open>std::size_t\<close> by the arithmetic it is used in).
\<close>

type_synonym mapping = "addr \<times> size_t"

definition MAP_FAILED :: addr where
  "MAP_FAILED = - 1"

definition mmap_os :: "mapping list \<Rightarrow> size_t \<Rightarrow> addr \<Rightarrow> mapping list" where
  "mmap_os maps len ret = (if ret = MAP_FAILED then maps else (ret, len) # maps)"

definition munmap_os :: "mapping list \<Rightarrow> addr \<Rightarrow> size_t \<Rightarrow> mapping list \<times> bool" where
  "munmap_os maps p len =
     (if (p, len) \<in> set maps then (remove1 (p, len) maps, True) else (maps, False))"

definition Malloc_ctor ::
  "size_t \<Rightarrow> size_t \<Rightarrow> addr \<Rightarrow> string \<Rightarrow> mem \<Rightarrow> mapping list \<Rightarrow> (error + alloc) \<times> mem \<times> mapping list"
where
  "Malloc_ctor N kPageSize mmap_ret strerror_errno m maps =
     (let rs0 = N;
          rs = (if rs0 mod kPageSize \<noteq> 0 then (rs0 div kPageSize) * kPageSize + kPageSize
                else rs0);
          maps1 = mmap_os maps rs mmap_ret;
          hd0 = mmap_ret
      in if hd0 = 0 then (Inl (RuntimeError strerror_errno), m, maps1)
         else
           (let m1 = set_blk_size m hd0 (rs - sizeof_MemBlock);
                m2 = set_blk_next m1 hd0 0
            in (Inr \<lparr>region_size = rs, mmap_start = hd0, head = hd0\<rparr>, m2, maps1)))"

text \<open>The destructor; the flag says whether \<^verbatim>\<open>perror\<close> was called.\<close>

definition Malloc_dtor :: "alloc \<Rightarrow> mapping list \<Rightarrow> mapping list \<times> bool" where
  "Malloc_dtor a maps =
     (if mmap_start a \<noteq> 0 then
        (let (maps1, ok) = munmap_os maps (mmap_start a) (region_size a)
         in (maps1, \<not> ok))
      else (maps, False))"

text \<open>
  Move construction returns the new object and what is left of \<^verbatim>\<open>rhs\<close>. Move assignment
  compares the addresses of the two objects, so objects live in a store indexed by their
  identity.
\<close>

definition move_ctor :: "alloc \<Rightarrow> alloc \<times> alloc" where
  "move_ctor rhs =
     (\<lparr>region_size = region_size rhs, mmap_start = mmap_start rhs, head = head rhs\<rparr>,
      rhs\<lparr>region_size := 0, mmap_start := 0, head := 0\<rparr>)"

definition move_assign :: "(nat \<Rightarrow> alloc) \<Rightarrow> nat \<Rightarrow> nat \<Rightarrow> (nat \<Rightarrow> alloc)" where
  "move_assign objs this rhs =
     (if this = rhs then objs
      else
        (let o1 = objs(this := (objs this)\<lparr>region_size := region_size (objs rhs)\<rparr>);
             o2 = o1(this := (o1 this)\<lparr>mmap_start := mmap_start (o1 rhs)\<rparr>);
             o3 = o2(this := (o2 this)\<lparr>head := head (o2 rhs)\<rparr>);
             o4 = o3(rhs := (o3 rhs)\<lparr>region_size := 0\<rparr>);
             o5 = o4(rhs := (o4 rhs)\<lparr>mmap_start := 0\<rparr>)
         in o5(rhs := (o5 rhs)\<lparr>head := 0\<rparr>)))"

section \<open>Specification-side notions\<close>

text \<open>Two byte ranges \<open>[a, a + la)\<close> and \<open>[b, b + lb)\<close> that do not wrap and do not overlap.\<close>

definition apart :: "addr \<Rightarrow> nat \<Rightarrow> addr \<Rightarrow> nat \<Rightarrow> bool" where
  "apart a la b lb \<longleftrightarrow>
     unat a + la \<le> 2 ^ 64 \<and> unat b + lb \<le> 2 ^ 64 \<and>
     (unat b + lb \<le> unat a \<or> unat a + la \<le> unat b)"

text \<open>An anonymous mapping is zero-filled.\<close>

definition zero_mem :: mem where
  "zero_mem = (\<lambda>_. 0)"

text \<open>
  The allocator the tests construct: \<^verbatim>\<open>Malloc<4096>\<close> on 4096-byte pages, with the region
  mapped at the page-aligned address 0x10000 of zero-filled memory.
\<close>

definition test_mem :: mem where
  "test_mem = fst (snd (Malloc_ctor 4096 4096 0x10000 [] zero_mem []))"

definition test_alloc :: alloc where
  "test_alloc = \<lparr>region_size = 4096, mmap_start = 0x10000, head = 0x10000\<rparr>"

text \<open>The memory and the object after \<^verbatim>\<open>Alloc(100, 8)\<close> on the test allocator.\<close>

definition test_mem2 :: mem where
  "test_mem2 = (case Alloc test_mem test_alloc 100 8 of Some (r, m', a') \<Rightarrow> m' | None \<Rightarrow> test_mem)"

definition test_alloc2 :: alloc where
  "test_alloc2 =
     (case Alloc test_mem test_alloc 100 8 of Some (r, m', a') \<Rightarrow> a' | None \<Rightarrow> test_alloc)"

text \<open>
  The operations a program can apply to allocator objects once they exist, for statements
  about everything that may happen afterwards. Objects are named by their identity; the
  world is the memory, the objects and the OS's list of mappings.
\<close>

datatype op =
    Op_Alloc nat size_t size_t
  | Op_Free nat addr
  | Op_MoveAssign nat nat
  | Op_MoveCtor nat nat
  | Op_Destroy nat

type_synonym world = "mem \<times> (nat \<Rightarrow> alloc) \<times> mapping list"

fun step :: "op \<Rightarrow> world \<Rightarrow> world option" where
  "step (Op_Alloc i sz al) (m, objs, maps) =
     (case Alloc m (objs i) sz al of
        None \<Rightarrow> None
      | Some (r, m', a') \<Rightarrow> Some (m', objs(i := a'), maps))"
| "step (Op_Free i p) (m, objs, maps) =
     (case Free m (objs i) p of
        None \<Rightarrow> None
      | Some (r, m', a') \<Rightarrow> Some (m', objs(i := a'), maps))"
| "step (Op_MoveAssign this rhs) (m, objs, maps) = Some (m, move_assign objs this rhs, maps)"
| "step (Op_MoveCtor new rhs) (m, objs, maps) =
     (let (a, r) = move_ctor (objs rhs) in Some (m, objs(rhs := r, new := a), maps))"
| "step (Op_Destroy i) (m, objs, maps) = Some (m, objs, fst (Malloc_dtor (objs i) maps))"

fun run :: "op list \<Rightarrow> world \<Rightarrow> world option" where
  "run [] w = Some w"
| "run (x # xs) w = (case step x w of None \<Rightarrow> None | Some w' \<Rightarrow> run xs w')"

text \<open>A mapping the OS still holds and that no object records as its region.\<close>

definition leaked :: "mapping \<Rightarrow> (nat \<Rightarrow> alloc) \<Rightarrow> mapping list \<Rightarrow> bool" where
  "leaked mp objs maps \<longleftrightarrow> mp \<in> set maps \<and> (\<forall>i. mmap_start (objs i) \<noteq> fst mp)"

text \<open>Two constructed allocators (objects 0 and 1) and their mappings.\<close>

definition two_objs :: "nat \<Rightarrow> alloc" where
  "two_objs i =
     (if i = 0 then \<lparr>region_size = 4096, mmap_start = 0x10000, head = 0x10000\<rparr>
      else if i = 1 then \<lparr>region_size = 4096, mmap_start = 0x20000, head = 0x20000\<rparr>
      else \<lparr>region_size = 0, mmap_start = 0, head = 0\<rparr>)"

definition two_maps :: "mapping list" where
  "two_maps = [(0x20000, 4096), (0x10000, 4096)]"

type_synonym node = "addr \<times> size_t"

text \<open>
  The free list as the code walks it: \<open>fseg m p xs q\<close> says that following \<^verbatim>\<open>next\<close> from \<open>p\<close>
  visits exactly the nodes \<open>xs\<close> (address and \<^verbatim>\<open>size\<close> field of each) and arrives at \<open>q\<close>;
  \<open>flist m p xs\<close> says that the list starting at \<open>p\<close> is \<open>xs\<close> and ends with null.
\<close>

fun fseg :: "mem \<Rightarrow> addr \<Rightarrow> node list \<Rightarrow> addr \<Rightarrow> bool" where
  "fseg m p [] q \<longleftrightarrow> p = q"
| "fseg m p (n # xs) q \<longleftrightarrow>
     p = fst n \<and> fst n \<noteq> 0 \<and> blk_size m (fst n) = snd n \<and> fseg m (blk_next m (fst n)) xs q"

definition flist :: "mem \<Rightarrow> addr \<Rightarrow> node list \<Rightarrow> bool" where
  "flist m p xs \<longleftrightarrow> fseg m p xs 0"

text \<open>
  The two properties of the free list the specification names: strictly ascending
  addresses, and no node ending where the next one starts.
\<close>

definition ascending :: "node list \<Rightarrow> bool" where
  "ascending xs \<longleftrightarrow> sorted_wrt (\<lambda>x y. fst x < fst y) xs"

definition non_contiguous :: "node list \<Rightarrow> bool" where
  "non_contiguous xs \<longleftrightarrow> successively (\<lambda>x y. fst x + snd x \<noteq> fst y) xs"

text \<open>
  The invariant that carries them. \<open>gap x y\<close>: the span of \<open>x\<close> ends at least 16 bytes (one
  \<^verbatim>\<open>MemBlock\<close>, no more than the smallest allocated block) before \<open>y\<close> starts. \<open>spaced xs\<close>:
  every node is that far before all later ones, and before the end of the address space.
  \<open>near x y\<close> also admits a node \<open>x\<close> of at least 16 bytes that ends exactly where \<open>y\<close>
  starts; \<open>joinable xs\<close> is the state between \<open>InsertFreeMemBlock\<close> and \<open>MergeFreeBlocks\<close>.
\<close>

definition gap :: "node \<Rightarrow> node \<Rightarrow> bool" where
  "gap x y \<longleftrightarrow> unat (fst x) + unat (snd x) + 16 \<le> unat (fst y)"

definition near :: "node \<Rightarrow> node \<Rightarrow> bool" where
  "near x y \<longleftrightarrow> gap x y \<or> (unat (fst x) + unat (snd x) = unat (fst y) \<and> 16 \<le> unat (snd x))"

definition bounded :: "node list \<Rightarrow> bool" where
  "bounded xs \<longleftrightarrow> list_all (\<lambda>x. unat (fst x) + unat (snd x) + 16 \<le> 2 ^ 64) xs"

definition spaced :: "node list \<Rightarrow> bool" where
  "spaced xs \<longleftrightarrow> sorted_wrt gap xs \<and> bounded xs"

definition joinable :: "node list \<Rightarrow> bool" where
  "joinable xs \<longleftrightarrow> sorted_wrt near xs \<and> bounded xs"

text \<open>
  The specification's \<open>InsertFreeBlock\<close> and \<open>MergeAdjacent\<close> on the list of nodes: splice the
  block in before the first node whose start address is at least the block's end, or
  append it; then fuse every node with the node that starts where it ends.
\<close>

fun insert_block :: "node \<Rightarrow> node list \<Rightarrow> node list" where
  "insert_block b [] = [b]"
| "insert_block b (x # xs) =
     (if fst b + snd b \<le> fst x then b # x # xs else x # insert_block b xs)"

fun merge_adjacent :: "node list \<Rightarrow> node list" where
  "merge_adjacent [] = []"
| "merge_adjacent [x] = [x]"
| "merge_adjacent (x # y # xs) =
     (if fst x + snd x = fst y then merge_adjacent ((fst x, snd x + snd y) # xs)
      else x # merge_adjacent (y # xs))"

text \<open>
  The specification's first-fit with splitting: the nodes before the first one of at least
  \<open>req\<close> bytes stay, that node is replaced by its residual (or removed when it has exactly
  \<open>req\<close> bytes), the rest stays. \<open>None\<close> when no node is large enough.
\<close>

fun first_fit :: "size_t \<Rightarrow> node list \<Rightarrow> (addr \<times> node list) option" where
  "first_fit req [] = None"
| "first_fit req (x # xs) =
     (if req \<le> snd x then
        Some (fst x, if req < snd x then (fst x + req, snd x - req) # xs else xs)
      else map_option (\<lambda>(c, ys). (c, x # ys)) (first_fit req xs))"

text \<open>The value of \<^verbatim>\<open>prev\<close> after a walk over the nodes \<open>pre\<close> that started with \<open>prev\<close>.\<close>

definition last_addr :: "addr option \<Rightarrow> node list \<Rightarrow> addr option" where
  "last_addr prev pre = (if pre = [] then prev else Some (fst (last pre)))"


text \<open>\<open>clear_of b xs\<close>: a 16-byte record at \<open>b\<close> overlaps the record of no node of \<open>xs\<close>.\<close>

definition clear_of :: "addr \<Rightarrow> node list \<Rightarrow> bool" where
  "clear_of b xs \<longleftrightarrow>
     unat b + 16 \<le> 2 ^ 64 \<and>
     list_all (\<lambda>n. unat b + 16 \<le> unat (fst n) \<or> unat (fst n) + 16 \<le> unat b) xs"


section \<open>Loads and stores\<close>

lemma bit_from_le:
  "bit (from_le bs :: 'a::len word) n \<longleftrightarrow>
   n < LENGTH('a) \<and> n div 8 < length bs \<and> bit (bs ! (n div 8)) (n mod 8)"
  using bit_horner_sum_uint_exp_iff [where 'a=8, of bs n]
  by (simp add: from_le_def bit_word_of_int_iff)

lemma from_to_le64: "from_le (to_le 8 v) = (v :: 64 word)"
  by (rule bit_word_eqI)
    (auto simp: bit_from_le to_le_def bit_ucast_iff bit_drop_bit_eq less_mult_imp_div_less)

lemma from_to_le32: "from_le (to_le 4 v) = (v :: 32 word)"
  by (rule bit_word_eqI)
    (auto simp: bit_from_le to_le_def bit_ucast_iff bit_drop_bit_eq less_mult_imp_div_less)

lemma length_to_le [simp]: "length (to_le n v) = n"
  by (simp add: to_le_def)

lemma store_in:
  "length bs < 2 ^ 64 \<Longrightarrow> i < length bs \<Longrightarrow> store m a bs (a + of_nat i) = bs ! i"
  by (simp add: store_def word_less_nat_alt unat_of_nat take_bit_nat_eq_self_iff)

lemma store_out:
  "unat a + length bs \<le> 2 ^ 64 \<Longrightarrow> unat x < unat a \<or> unat a + length bs \<le> unat x
   \<Longrightarrow> store m a bs x = m x"
  apply (simp add: store_def word_less_nat_alt unat_of_nat unat_sub_if_size word_size)
  apply (auto simp: take_bit_nat_eq_self_iff)
  done

lemma load_store_same: "length bs = n \<Longrightarrow> n < 2 ^ 64 \<Longrightarrow> load (store m a bs) a n = bs"
  by (auto simp: load_def store_in list_eq_iff_nth_eq)

lemma unat_plus_small:
  "unat b + n \<le> 2 ^ 64 \<Longrightarrow> i < n \<Longrightarrow> unat (b + of_nat i :: 64 word) = unat b + i"
  by (simp add: unat_word_ariths unat_of_nat take_bit_nat_eq_self_iff)

lemma load_store_disj:
  assumes "unat a + length bs \<le> 2 ^ 64" "unat b + n \<le> 2 ^ 64"
    and "unat b + n \<le> unat a \<or> unat a + length bs \<le> unat b"
  shows "load (store m a bs) b n = load m b n"
proof -
  have "store m a bs (b + of_nat i) = m (b + of_nat i)" if "i < n" for i
  proof (rule store_out [OF assms(1)])
    have "unat (b + of_nat i) = unat b + i"
      using assms(2) that by (rule unat_plus_small)
    then show "unat (b + of_nat i) < unat a \<or> unat a + length bs \<le> unat (b + of_nat i)"
      using assms(3) that by auto
  qed
  then show ?thesis by (simp add: load_def)
qed

lemma read64_write64_same [simp]: "read64 (write64 m a v) a = v"
  by (simp add: read64_def write64_def load_store_same from_to_le64)

lemma read32_write32_same [simp]: "read32 (write32 m a v) a = v"
  by (simp add: read32_def write32_def load_store_same from_to_le32)

lemma read8_write8_same [simp]: "read8 (write8 m a v) a = v"
  by (simp add: read8_def write8_def store_def)

lemma read64_write64_apart: "apart a 8 b 8 \<Longrightarrow> read64 (write64 m a v) b = read64 m b"
  by (simp add: read64_def write64_def apart_def load_store_disj)

lemma read64_write32_apart: "apart a 4 b 8 \<Longrightarrow> read64 (write32 m a v) b = read64 m b"
  by (simp add: read64_def write32_def apart_def load_store_disj)

lemma read64_write8_apart: "apart a 1 b 8 \<Longrightarrow> read64 (write8 m a v) b = read64 m b"
  by (simp add: read64_def write8_def apart_def load_store_disj)

lemma read32_write64_apart: "apart a 8 b 4 \<Longrightarrow> read32 (write64 m a v) b = read32 m b"
  by (simp add: read32_def write64_def apart_def load_store_disj)

lemma read32_write8_apart: "apart a 1 b 4 \<Longrightarrow> read32 (write8 m a v) b = read32 m b"
  by (simp add: read32_def write8_def apart_def load_store_disj)

section \<open>Powers of two and alignment\<close>

lemma pow2_and_pred: "k < 64 \<Longrightarrow> (2 ^ k :: 64 word) AND (2 ^ k - 1) = 0"
  by (rule bit_word_eqI) (auto simp: bit_simps simp flip: mask_eq_exp_minus_1)

lemma nat_and_pred_pow2:
  fixes n :: nat
  shows "0 < n \<Longrightarrow> n AND (n - 1) = 0 \<Longrightarrow> \<exists>k. n = 2 ^ k"
proof (induction n rule: less_induct)
  case (less n)
  show ?case
  proof (cases "even n")
    case True
    then obtain h where h: "n = 2 * h" by (auto elim: evenE)
    with less.prems have h0: "0 < h" by simp
    have "n - 1 = 2 * (h - 1) + 1" using h h0 by simp
    then have "n AND (n - 1) = 2 * (h AND (h - 1))"
      using h by (simp add: and_nat_rec[of "2 * h"] )
    with less.prems have "h AND (h - 1) = 0" by simp
    with less.IH[of h] h h0 obtain k where "h = 2 ^ k" by auto
    with h have "n = 2 ^ Suc k" by simp
    then show ?thesis by blast
  next
    case False
    then obtain h where h: "n = 2 * h + 1" by (auto elim: oddE)
    then have "n AND (n - 1) = 2 * h"
      by (simp add: and_nat_rec[of "Suc (2 * h)" "2 * h"])
    with less.prems have "h = 0" by simp
    with h have "n = 2 ^ 0" by simp
    then show ?thesis by blast
  qed
qed

lemma unat_eq_pow2D: "unat (n::64 word) = 2 ^ k \<Longrightarrow> n = 2 ^ k"
proof -
  assume k: "unat n = 2 ^ k"
  have "n = of_nat (unat n)" by simp
  also have "\<dots> = 2 ^ k" unfolding k by simp
  finally show ?thesis .
qed

lemma IsPowerOfTwo_iff: "IsPowerOfTwo n \<longleftrightarrow> (\<exists>k<64. n = 2 ^ k)"
proof
  assume "IsPowerOfTwo n"
  then have n0: "n \<noteq> 0" and a: "n AND (n - 1) = 0" by (auto simp: IsPowerOfTwo_def)
  from n0 have pos: "0 < unat n" by (simp add: unat_gt_0)
  have "unat (n - 1) = unat n - 1" using n0 by (simp add: unat_minus_one)
  then have "unat n AND (unat n - 1) = 0"
    using a by (metis unat_eq_zero unsigned_and_eq)
  from nat_and_pred_pow2[OF pos this] obtain k where k: "unat n = 2 ^ k" by blast
  have "k < 64"
  proof (rule ccontr)
    assume nk: "\<not> k < 64"
    have "(2::nat) ^ 64 \<le> 2 ^ k" by (rule power_increasing) (use nk in auto)
    moreover have "unat n < 2 ^ 64" using unsigned_less[of n] by simp
    ultimately show False using k by simp
  qed
  moreover have "n = 2 ^ k" using k by (rule unat_eq_pow2D)
  ultimately show "\<exists>k<64. n = 2 ^ k" by blast
next
  assume "\<exists>k<64. n = 2 ^ k"
  then obtain k where "k < 64" "n = 2 ^ k" by blast
  then show "IsPowerOfTwo n"
    by (simp add: IsPowerOfTwo_def pow2_and_pred)
qed

lemma and_neg_pow2_aligned:
  "k < 64 \<Longrightarrow> unat ((x :: 64 word) AND - (2 ^ k)) mod 2 ^ k = 0"
proof -
  assume k: "k < 64"
  have "- (2 ^ k) = NOT (mask k :: 64 word)"
    by (simp add: minus_exp_eq_not_mask)
  then have "take_bit k (x AND - (2 ^ k)) = 0"
    by (simp add: take_bit_eq_mask word_bw_assocs)
  then have "take_bit k (unat (x AND - (2 ^ k))) = 0"
    by (simp flip: unsigned_take_bit_eq)
  then show ?thesis by (simp add: take_bit_eq_mod)
qed

lemma unat_pow2_64: "k < 64 \<Longrightarrow> unat (2 ^ k :: 64 word) = 2 ^ k"
proof -
  assume k: "k < 64"
  have lt: "(2::nat) ^ k < 2 ^ 64" by (rule power_strict_increasing) (use k in auto)
  have "(2 :: 64 word) ^ k = of_nat (2 ^ k)" by simp
  then have "unat (2 ^ k :: 64 word) = unat (of_nat (2 ^ k) :: 64 word)" by simp
  also have "\<dots> = 2 ^ k"
    using lt by (simp add: unat_of_nat take_bit_nat_eq_self_iff del: of_nat_power of_nat_numeral)
  finally show ?thesis .
qed

lemma std_align_aligned:
  assumes "k < 64"
  shows "unat (fst (std_align (2 ^ k) s ptr space)) mod 2 ^ k = 0"
  using and_neg_pow2_aligned [OF assms]
  by (simp add: std_align_def Let_def)

section \<open>What the layout step never returns\<close>

lemma alloc_layout_not_InvalidArgument:
  "fst (alloc_layout m req al c) \<noteq> Inl (InvalidArgument msg)"
  by (simp add: alloc_layout_def Let_def split: prod.splits)

lemma alloc_layout_not_null: "fst (alloc_layout m req al c) \<noteq> Inr 0"
  by (simp add: alloc_layout_def Let_def split: prod.splits)

section \<open>The free list in memory\<close>

lemma blk_store_apart:
  assumes "apart w (length bs) b 16"
  shows "blk_size (store m w bs) b = blk_size m b" "blk_next (store m w bs) b = blk_next m b"
proof -
  from assms have w: "unat w + length bs \<le> 2 ^ 64" and b: "unat b + 16 \<le> 2 ^ 64"
    and d: "unat b + 16 \<le> unat w \<or> unat w + length bs \<le> unat b"
    by (auto simp: apart_def)
  show "blk_size (store m w bs) b = blk_size m b"
    unfolding blk_size_def read64_def
    by (rule arg_cong [where f = from_le], rule load_store_disj) (use w b d in auto)
  have b8: "unat (b + 8) = unat b + 8"
    using unat_plus_small [of b 16 8] b by simp
  show "blk_next (store m w bs) b = blk_next m b"
    unfolding blk_next_def read64_def
    by (rule arg_cong [where f = from_le], rule load_store_disj) (use w b d b8 in auto)
qed

lemma fseg_cong:
  assumes "\<forall>n\<in>set xs. blk_size m' (fst n) = blk_size m (fst n) \<and> blk_next m' (fst n) = blk_next m (fst n)"
  shows "fseg m' p xs q = fseg m p xs q"
  using assms by (induction xs arbitrary: p) auto

lemma fseg_append:
  "fseg m p (xs @ ys) q \<longleftrightarrow> (\<exists>r. fseg m p xs r \<and> fseg m r ys q)"
  by (induction xs arbitrary: p) auto

lemma fseg_unique: "fseg m p xs q \<Longrightarrow> fseg m p xs q' \<Longrightarrow> q = q'"
  by (induction xs arbitrary: p) auto

lemma unat_plus8: "unat b + 16 \<le> 2 ^ 64 \<Longrightarrow> unat (b + 8 :: addr) = unat b + 8"
  using unat_plus_small [of b 16 8] by simp

lemma node_store_frame:
  assumes "unat w + length bs \<le> 2 ^ 64" "unat b + 16 \<le> 2 ^ 64"
    and "unat b + 16 \<le> unat w \<or> unat w + length bs \<le> unat b"
  shows "blk_size (store m w bs) b = blk_size m b \<and> blk_next (store m w bs) b = blk_next m b"
  using blk_store_apart [of w bs b m] assms by (simp add: apart_def)

lemma node_set_size_frame:
  assumes "unat w + 16 \<le> 2 ^ 64" "unat b + 16 \<le> 2 ^ 64"
    and "unat b + 16 \<le> unat w \<or> unat w + 8 \<le> unat b"
  shows "blk_size (set_blk_size m w v) b = blk_size m b \<and> blk_next (set_blk_size m w v) b = blk_next m b"
  unfolding set_blk_size_def write64_def
  by (rule node_store_frame) (use assms in auto)

lemma node_set_next_frame:
  assumes "unat w + 16 \<le> 2 ^ 64" "unat b + 16 \<le> 2 ^ 64"
    and "unat b + 16 \<le> unat w + 8 \<or> unat w + 16 \<le> unat b"
  shows "blk_size (set_blk_next m w v) b = blk_size m b \<and> blk_next (set_blk_next m w v) b = blk_next m b"
  unfolding set_blk_next_def write64_def
  by (rule node_store_frame) (use assms unat_plus8 [of w] in auto)

lemma node_set_hdr_size_frame:
  assumes "unat w + 16 \<le> 2 ^ 64" "unat b + 16 \<le> 2 ^ 64"
    and "unat b + 16 \<le> unat w + 8 \<or> unat w + 16 \<le> unat b"
  shows "blk_size (set_hdr_size m w v) b = blk_size m b \<and> blk_next (set_hdr_size m w v) b = blk_next m b"
  unfolding set_hdr_size_def write64_def
  by (rule node_store_frame) (use assms unat_plus8 [of w] in auto)

lemma node_set_hdr_magic_frame:
  assumes "unat w + 16 \<le> 2 ^ 64" "unat b + 16 \<le> 2 ^ 64"
    and "unat b + 16 \<le> unat w \<or> unat w + 4 \<le> unat b"
  shows "blk_size (set_hdr_magic m w v) b = blk_size m b \<and> blk_next (set_hdr_magic m w v) b = blk_next m b"
  unfolding set_hdr_magic_def write32_def
  by (rule node_store_frame) (use assms in auto)

lemma node_write8_frame:
  assumes "unat b + 16 \<le> 2 ^ 64"
    and "unat b + 16 \<le> unat w \<or> unat w + 1 \<le> unat b"
  shows "blk_size (write8 m w v) b = blk_size m b \<and> blk_next (write8 m w v) b = blk_next m b"
proof -
  have "unat w < 2 ^ 64" using unsigned_less [of w] by simp
  then show ?thesis
    unfolding write8_def
    by (intro node_store_frame) (use assms in auto)
qed

lemma blk_size_set_size [simp]: "blk_size (set_blk_size m b v) b = v"
  by (simp add: blk_size_def set_blk_size_def)

lemma blk_next_set_next [simp]: "blk_next (set_blk_next m b v) b = v"
  by (simp add: blk_next_def set_blk_next_def)

lemma blk_next_set_size:
  "unat b + 16 \<le> 2 ^ 64 \<Longrightarrow> blk_next (set_blk_size m b v) b = blk_next m b"
  unfolding blk_next_def set_blk_size_def
  by (rule read64_write64_apart) (simp add: apart_def unat_plus8)

lemma blk_size_set_next:
  "unat b + 16 \<le> 2 ^ 64 \<Longrightarrow> blk_size (set_blk_next m b v) b = blk_size m b"
  unfolding blk_size_def set_blk_next_def
  by (rule read64_write64_apart) (simp add: apart_def unat_plus8)

lemma hdr_size_set_size [simp]: "hdr_size (set_hdr_size m c v) c = v"
  by (simp add: hdr_size_def set_hdr_size_def)

lemma hdr_magic_set_magic [simp]: "hdr_magic (set_hdr_magic m c v) c = v"
  by (simp add: hdr_magic_def set_hdr_magic_def)

lemma hdr_size_set_magic:
  "unat c + 16 \<le> 2 ^ 64 \<Longrightarrow> hdr_size (set_hdr_magic m c v) c = hdr_size m c"
  unfolding hdr_size_def set_hdr_magic_def
  by (rule read64_write32_apart) (simp add: apart_def unat_plus8)

lemma hdr_write8_frame:
  assumes "unat c + 16 \<le> unat w"
  shows "hdr_size (write8 m w v) c = hdr_size m c" "hdr_magic (write8 m w v) c = hdr_magic m c"
proof -
  have w: "unat w < 2 ^ 64" using unsigned_less [of w] by simp
  with assms have c: "unat c + 16 \<le> 2 ^ 64" by simp
  show "hdr_size (write8 m w v) c = hdr_size m c"
    unfolding hdr_size_def
    by (rule read64_write8_apart) (use assms w c in \<open>simp add: apart_def unat_plus8\<close>)
  show "hdr_magic (write8 m w v) c = hdr_magic m c"
    unfolding hdr_magic_def
    by (rule read32_write8_apart) (use assms w c in \<open>simp add: apart_def\<close>)
qed

lemma last_addr_Cons [simp]: "last_addr prev (n # xs) = last_addr (Some (fst n)) xs"
  by (simp add: last_addr_def)

lemma last_addr_Nil [simp]: "last_addr prev [] = prev"
  by (simp add: last_addr_def)

lemma alloc_walk_found:
  assumes "fseg m p pre c" "c \<noteq> 0" "req \<le> blk_size m c" "\<forall>n\<in>set pre. snd n < req"
  shows "alloc_walk m req prev p = Some (last_addr prev pre, c)"
  using assms
proof (induction pre arbitrary: p prev)
  case Nil
  then show ?case by (subst alloc_walk.simps) simp
next
  case (Cons n pre)
  from Cons.prems have p: "p = fst n" "fst n \<noteq> 0" "blk_size m (fst n) = snd n"
    and seg: "fseg m (blk_next m (fst n)) pre c" and small: "snd n < req"
    by auto
  have "alloc_walk m req prev p = alloc_walk m req (Some (fst n)) (blk_next m (fst n))"
  proof -
    have "\<not> req \<le> blk_size m p" using p small by (simp add: not_le)
    then show ?thesis using p by (subst alloc_walk.simps) simp
  qed
  also have "\<dots> = Some (last_addr (Some (fst n)) pre, c)"
    using Cons.IH [OF seg Cons.prems(2,3)] Cons.prems(4) by simp
  finally show ?case by simp
qed

lemma alloc_walk_none:
  assumes "fseg m p xs 0" "\<forall>n\<in>set xs. snd n < req"
  shows "alloc_walk m req prev p = Some (last_addr prev xs, 0)"
  using assms
proof (induction xs arbitrary: p prev)
  case Nil
  then show ?case by (subst alloc_walk.simps) simp
next
  case (Cons n xs)
  from Cons.prems have p: "p = fst n" "fst n \<noteq> 0" "blk_size m (fst n) = snd n"
    and seg: "fseg m (blk_next m (fst n)) xs 0" and small: "snd n < req"
    by auto
  have "alloc_walk m req prev p = alloc_walk m req (Some (fst n)) (blk_next m (fst n))"
  proof -
    have "\<not> req \<le> blk_size m p" using p small by (simp add: not_le)
    then show ?thesis using p by (subst alloc_walk.simps) simp
  qed
  also have "\<dots> = Some (last_addr (Some (fst n)) xs, 0)"
    using Cons.IH [OF seg] Cons.prems(2) by simp
  finally show ?case by simp
qed

lemma insert_walk_found:
  assumes "fseg m p pre c" "c \<noteq> 0" "be \<le> c" "\<forall>n\<in>set pre. \<not> be \<le> fst n"
  shows "insert_walk m dn blk be prev p =
     (let m1 = set_blk_next m blk c;
          (m2, dn2) = set_prev_next m1 dn (last_addr prev pre) blk
      in Some (m2, dn2, last_addr prev pre, True))"
  using assms
proof (induction pre arbitrary: p prev)
  case Nil
  then show ?case by (subst insert_walk.simps) simp
next
  case (Cons n pre)
  from Cons.prems have p: "p = fst n" "fst n \<noteq> 0"
    and seg: "fseg m (blk_next m (fst n)) pre c" and before: "\<not> be \<le> fst n"
    by auto
  have "insert_walk m dn blk be prev p =
        insert_walk m dn blk be (Some (fst n)) (blk_next m (fst n))"
    using p before by (subst insert_walk.simps) simp
  also note Cons.IH [OF seg Cons.prems(2,3), of "Some (fst n)"]
  finally show ?case using Cons.prems(4) by simp
qed

lemma insert_walk_none:
  assumes "fseg m p xs 0" "\<forall>n\<in>set xs. \<not> be \<le> fst n"
  shows "insert_walk m dn blk be prev p = Some (m, dn, last_addr prev xs, False)"
  using assms
proof (induction xs arbitrary: p prev)
  case Nil
  then show ?case by (subst insert_walk.simps) simp
next
  case (Cons n xs)
  from Cons.prems have p: "p = fst n" "fst n \<noteq> 0"
    and seg: "fseg m (blk_next m (fst n)) xs 0" and before: "\<not> be \<le> fst n"
    by auto
  have "insert_walk m dn blk be prev p =
        insert_walk m dn blk be (Some (fst n)) (blk_next m (fst n))"
    using p before by (subst insert_walk.simps) simp
  also have "\<dots> = Some (m, dn, last_addr (Some (fst n)) xs, False)"
    using Cons.IH [OF seg] Cons.prems(2) by simp
  finally show ?case by simp
qed

section \<open>Alloc on a well-formed free list\<close>

lemma unat_mask_64: "k < 64 \<Longrightarrow> unat (mask k :: 64 word) = 2 ^ k - 1"
proof -
  assume k: "k < 64"
  have nz: "(2 ^ k :: 64 word) \<noteq> 0"
    using unat_pow2_64 [OF k] by (metis power_not_zero unat_0 zero_neq_numeral)
  have "unat (mask k :: 64 word) = unat (2 ^ k - 1 :: 64 word)"
    by (simp add: mask_eq_decr_exp)
  also have "\<dots> = unat (2 ^ k :: 64 word) - 1" using nz by (rule unat_minus_one)
  finally show ?thesis using unat_pow2_64 [OF k] by simp
qed

lemma unat_take_bit_mod: "unat (take_bit k (w :: 64 word)) = unat w mod 2 ^ k"
proof -
  have "unat (take_bit k w) = take_bit k (unat w)" by (rule unsigned_take_bit_eq)
  then show ?thesis by (simp only: take_bit_eq_mod)
qed

lemma align_up_diff:
  fixes ptr :: addr
  assumes k: "k < 64"
  shows "((ptr - 1 + 2 ^ k) AND - (2 ^ k)) - ptr = mask k - ((ptr - 1) AND mask k)"
proof -
  let ?w = "ptr - 1 + 2 ^ k"
  have neg: "- (2 ^ k) = NOT (mask k :: addr)" by (simp add: minus_exp_eq_not_mask)
  have dv: "(2::nat) ^ k dvd 2 ^ 64" by (rule le_imp_power_dvd) (use k in simp)
  have "unat (take_bit k ?w) = unat ?w mod 2 ^ k"
    by (rule unat_take_bit_mod)
  also have "unat ?w = (unat (ptr - 1) + 2 ^ k) mod 2 ^ 64"
    by (simp add: unat_word_ariths(1) unat_pow2_64 [OF k])
  also have "\<dots> mod 2 ^ k = (unat (ptr - 1) + 2 ^ k) mod 2 ^ k"
    using dv by (rule mod_mod_cancel)
  also have "\<dots> = unat (take_bit k (ptr - 1))"
    by (simp add: unat_take_bit_mod)
  finally have "take_bit k ?w = take_bit k (ptr - 1)"
    by (simp only: word_unat_eq_iff)
  then have low: "?w AND mask k = (ptr - 1) AND mask k"
    by (simp add: take_bit_eq_mask)
  have "NOT ?w AND (?w AND mask k) = 0"
    by (simp flip: and.assoc)
  then have "?w - (?w AND mask k) = ?w AND NOT (?w AND mask k)"
    by (rule disjunctive_diff_eq_and_not)
  also have "\<dots> = ?w AND NOT (mask k)"
    by (rule bit_word_eqI) (auto simp: bit_simps)
  finally have e: "?w AND NOT (mask k) = ?w - ((ptr - 1) AND mask k)"
    using low by simp
  have "(?w AND - (2 ^ k)) - ptr = (?w - ((ptr - 1) AND mask k)) - ptr"
    by (simp only: neg e)
  also have "\<dots> = mask k - ((ptr - 1) AND mask k)"
    by (simp add: mask_eq_decr_exp)
  finally show ?thesis .
qed

lemma align_up_diff_less:
  fixes ptr :: addr
  assumes k: "k < 64"
  shows "unat (((ptr - 1 + 2 ^ k) AND - (2 ^ k)) - ptr) < 2 ^ k"
proof -
  let ?v = "(ptr - 1) AND mask k"
  have le: "?v \<le> mask k" by (rule word_and_le1)
  have "unat (mask k - ?v) = unat (mask k :: addr) - unat ?v"
    using le by (simp add: unat_sub)
  also have "\<dots> \<le> unat (mask k :: addr)" by simp
  also have "\<dots> < 2 ^ k" using k by (simp add: unat_mask_64)
  finally show ?thesis using align_up_diff [OF k] by simp
qed

lemma std_align_ok:
  assumes k: "k < 64" and nov: "unat sz + 2 ^ k < 2 ^ 64"
  shows "std_align (2 ^ k) sz ptr (sz + 2 ^ k) =
           ((ptr - 1 + 2 ^ k) AND (- (2 ^ k)),
            sz + 2 ^ k - (((ptr - 1 + 2 ^ k) AND (- (2 ^ k))) - ptr))"
proof -
  let ?al = "2 ^ k :: size_t"
  let ?d = "((ptr - 1 + ?al) AND (- ?al)) - ptr"
  have ual: "unat ?al = 2 ^ k" using k by (rule unat_pow2_64)
  have sp: "unat (sz + ?al) = unat sz + 2 ^ k"
    using nov ual by (simp add: unat_word_ariths(1) take_bit_nat_eq_self_iff)
  have a: "\<not> sz + ?al < sz" using sp by (simp add: word_less_nat_alt)
  have "unat ?d < unat ?al" using align_up_diff_less [OF k, of ptr] ual by simp
  then have b: "\<not> ?d > ?al" by (simp add: word_less_nat_alt)
  show ?thesis using a b by (simp add: std_align_def Let_def)
qed

lemma req_space_minus:
  "req_space sz al - sizeof_MemBlockHeader - 1 = sz + al"
  "req_space sz al - sizeof_MemBlockHeader - 1 - al = sz"
  by (simp_all add: req_space_def sizeof_MemBlock_def sizeof_MemBlockHeader_def)

lemma unat_add_nowrap:
  "unat (x :: 64 word) + unat y < 2 ^ 64 \<Longrightarrow> unat (x + y) = unat x + unat y"
  by (simp add: unat_word_ariths(1) take_bit_nat_eq_self_iff)

lemma alloc_layout_ok:
  fixes m :: mem and c :: addr and sz :: size_t and k :: nat
  assumes k: "k < 64" and c: "unat c + unat sz + 2 ^ k + 17 \<le> 2 ^ 64"
  defines "req \<equiv> req_space sz (2 ^ k)"
  defines "p \<equiv> (c + 17 - 1 + 2 ^ k) AND (- (2 ^ k))"
  defines "m3 \<equiv> set_hdr_magic (set_hdr_size m c (req - sizeof_MemBlockHeader)) c kMemMagicNum"
  shows "alloc_layout m req (2 ^ k) c = (Inr p, write8 m3 (p - 1) (ucast (p - (c + 17))))"
    and "unat c + 17 \<le> unat p" and "unat p < unat c + 17 + 2 ^ k"
    and "unat (p - (c + 17)) = unat p - (unat c + 17)"
    and "unat (p - 1) = unat p - 1"
proof -
  let ?al = "2 ^ k :: size_t"
  let ?u = "c + 17"
  have ual: "unat ?al = 2 ^ k" using k by (rule unat_pow2_64)
  have pk: "(1::nat) \<le> 2 ^ k" by simp
  have "unat c + 17 < (2::nat) ^ 64" using c pk by linarith
  then have "unat c + unat (17 :: addr) < 2 ^ 64" by simp
  then have uu: "unat ?u = unat c + 17"
    using unat_add_nowrap [of c 17] by simp
  have d: "unat (p - ?u) < 2 ^ k"
    unfolding p_def by (rule align_up_diff_less [OF k])
  have "unat (?u + (p - ?u)) = unat ?u + unat (p - ?u)"
    by (rule unat_add_nowrap) (use uu d c in linarith)
  then have up: "unat p = unat c + 17 + unat (p - ?u)" using uu by simp
  show lo: "unat c + 17 \<le> unat p" using up by simp
  show hi: "unat p < unat c + 17 + 2 ^ k" using up d by simp
  show "unat (p - (c + 17)) = unat p - (unat c + 17)" using up by simp
  have p0: "p \<noteq> 0" using lo by (metis add_is_0 le_zero_eq unat_0 zero_neq_numeral)
  then show "unat (p - 1) = unat p - 1" by (rule unat_minus_one)
  have c16: "unat c + 16 \<le> 2 ^ 64" using c by linarith
  have hs: "hdr_size m3 c = req - sizeof_MemBlockHeader"
    unfolding m3_def by (simp add: hdr_size_set_magic [OF c16])
  have nov: "unat sz + 2 ^ k < 2 ^ 64" using c by linarith
  have ts: "hdr_size m3 c - 1 = sz + ?al"
    using hs by (simp add: req_def req_space_def sizeof_MemBlock_def sizeof_MemBlockHeader_def)
  have sa: "hdr_size m3 c - 1 - ?al = sz" using ts by simp
  have u: "c + sizeof_MemBlockHeader + 1 = ?u" by (simp add: sizeof_MemBlockHeader_def)
  have al: "std_align ?al (hdr_size m3 c - 1 - ?al) (c + sizeof_MemBlockHeader + 1)
              (hdr_size m3 c - 1)
            = (p, sz + ?al - (p - ?u))"
    using std_align_ok [OF k nov, of ?u]
    by (simp only: ts u p_def add_diff_cancel_right')
  have undo: "sz + ?al - (sz + ?al - (p - ?u)) = p - ?u" by simp
  show "alloc_layout m req (2 ^ k) c = (Inr p, write8 m3 (p - 1) (ucast (p - (c + 17))))"
    unfolding alloc_layout_def Let_def m3_def [symmetric] al
    using p0 by (simp add: ts undo)
qed

lemma gap_near: "gap x y \<Longrightarrow> near x y"
  by (simp add: near_def)

lemma nearD: "near x y \<Longrightarrow> unat (fst x) + 16 \<le> unat (fst y) \<and> unat (fst x) + unat (snd x) \<le> unat (fst y)"
  by (auto simp: near_def gap_def)

lemma spaced_joinable: "spaced xs \<Longrightarrow> joinable xs"
  by (auto simp: spaced_def joinable_def intro: sorted_wrt_mono_rel [of xs gap near] gap_near)

lemma boundedD: "bounded xs \<Longrightarrow> n \<in> set xs \<Longrightarrow> unat (fst n) + unat (snd n) + 16 \<le> 2 ^ 64"
  by (auto simp: bounded_def list_all_iff)

lemma bounded_append [simp]: "bounded (xs @ ys) \<longleftrightarrow> bounded xs \<and> bounded ys"
  by (auto simp: bounded_def)

lemma bounded_Cons [simp]:
  "bounded (x # xs) \<longleftrightarrow> unat (fst x) + unat (snd x) + 16 \<le> 2 ^ 64 \<and> bounded xs"
  by (auto simp: bounded_def)

lemma bounded_Nil [simp]: "bounded []"
  by (simp add: bounded_def)

text \<open>Writing the \<^verbatim>\<open>next\<close> field of the last node of a segment (or the head) redirects its end.\<close>

lemma relink:
  fixes v :: addr
  assumes seg: "fseg m p pre c" and sw: "sorted_wrt near pre" and bd: "bounded pre"
  defines "r \<equiv> set_prev_next m p (last_addr None pre) v"
  shows "fseg (fst r) (snd r) pre v"
    and "\<And>b. unat b + 16 \<le> 2 ^ 64 \<Longrightarrow>
           \<forall>n\<in>set pre. unat b + 16 \<le> unat (fst n) \<or> unat (fst n) + 16 \<le> unat b \<Longrightarrow>
           blk_size (fst r) b = blk_size m b \<and> blk_next (fst r) b = blk_next m b"
proof -
  show "fseg (fst r) (snd r) pre v"
  proof (cases pre rule: rev_cases)
    case Nil
    then show ?thesis by (simp add: r_def set_prev_next_def)
  next
    case (snoc ys l)
    have r: "r = (set_blk_next m (fst l) v, p)"
      using snoc by (simp add: r_def set_prev_next_def last_addr_def)
    from seg snoc have s1: "fseg m p ys (fst l)" and l0: "fst l \<noteq> 0"
      and ls: "blk_size m (fst l) = snd l"
      by (auto simp: fseg_append)
    have lb: "unat (fst l) + 16 \<le> 2 ^ 64" using boundedD [OF bd, of l] snoc by simp
    have "\<forall>n\<in>set ys. blk_size (set_blk_next m (fst l) v) (fst n) = blk_size m (fst n)
                      \<and> blk_next (set_blk_next m (fst l) v) (fst n) = blk_next m (fst n)"
    proof
      fix n assume n: "n \<in> set ys"
      with sw snoc have "near n l" by (simp add: sorted_wrt_append)
      then have "unat (fst n) + 16 \<le> unat (fst l)" by (simp add: nearD)
      moreover have "unat (fst n) + 16 \<le> 2 ^ 64" using boundedD [OF bd, of n] n snoc by simp
      ultimately show "blk_size (set_blk_next m (fst l) v) (fst n) = blk_size m (fst n)
                      \<and> blk_next (set_blk_next m (fst l) v) (fst n) = blk_next m (fst n)"
        using lb by (intro node_set_next_frame) auto
    qed
    from fseg_cong [OF this] s1 have "fseg (set_blk_next m (fst l) v) p ys (fst l)"
      by simp
    then show ?thesis
      using r snoc l0 ls lb by (simp add: fseg_append blk_size_set_next)
  qed
next
  fix b :: addr assume b: "unat b + 16 \<le> 2 ^ 64"
    and ap: "\<forall>n\<in>set pre. unat b + 16 \<le> unat (fst n) \<or> unat (fst n) + 16 \<le> unat b"
  show "blk_size (fst r) b = blk_size m b \<and> blk_next (fst r) b = blk_next m b"
  proof (cases pre rule: rev_cases)
    case Nil
    then show ?thesis by (simp add: r_def set_prev_next_def)
  next
    case (snoc ys l)
    have r: "r = (set_blk_next m (fst l) v, p)"
      using snoc by (simp add: r_def set_prev_next_def last_addr_def)
    have lb: "unat (fst l) + 16 \<le> 2 ^ 64" using boundedD [OF bd, of l] snoc by simp
    from ap snoc have "unat b + 16 \<le> unat (fst l) \<or> unat (fst l) + 16 \<le> unat b" by simp
    then show ?thesis unfolding r fst_conv
      using lb b by (intro node_set_next_frame) auto
  qed
qed

lemma spaced_mid:
  assumes "spaced (pre @ x # post)"
  shows "sorted_wrt gap pre" "sorted_wrt gap post" "bounded pre" "bounded post"
    "\<forall>n\<in>set pre. gap n x" "\<forall>n\<in>set post. gap x n"
    "\<forall>n\<in>set pre. \<forall>n'\<in>set post. gap n n'"
    "unat (fst x) + unat (snd x) + 16 \<le> 2 ^ 64"
  using assms by (auto simp: spaced_def sorted_wrt_append)

lemma spaced_midI:
  assumes "sorted_wrt gap pre" "sorted_wrt gap post" "bounded pre" "bounded post"
    "\<forall>n\<in>set pre. gap n x" "\<forall>n\<in>set post. gap x n"
    "\<forall>n\<in>set pre. \<forall>n'\<in>set post. gap n n'"
    "unat (fst x) + unat (snd x) + 16 \<le> 2 ^ 64"
  shows "spaced (pre @ x # post)"
  using assms by (auto simp: spaced_def sorted_wrt_append)

lemma spaced_drop_mid:
  assumes "spaced (pre @ x # post)"
  shows "spaced (pre @ post)"
  using assms by (auto simp: spaced_def sorted_wrt_append)

lemma alloc_split_ok:
  fixes req :: size_t and m :: mem and a :: alloc
  assumes fl: "flist m (head a) (pre @ (c, s) # post)" and sp: "spaced (pre @ (c, s) # post)"
    and r16: "16 \<le> unat req" and fit: "req \<le> s"
  defines "res \<equiv> (if req < s then [(c + req, s - req)] else [])"
  defines "r \<equiv> alloc_split m a req (last_addr None pre) c"
  shows "flist (fst r) (head (snd r)) (pre @ res @ post)"
    and "spaced (pre @ res @ post)"
    and "region_size (snd r) = region_size a \<and> mmap_start (snd r) = mmap_start a"
proof -
  note S = spaced_mid [OF sp]
  from fl have seg: "fseg m (head a) pre c" and c0: "c \<noteq> 0" and cs: "blk_size m c = s"
    and tl: "fseg m (blk_next m c) post 0"
    by (auto simp: flist_def fseg_append)
  have cb: "unat c + unat s + 16 \<le> 2 ^ 64" using S(8) by simp
  have swn: "sorted_wrt near pre"
    using S(1) by (rule sorted_wrt_mono_rel [rotated]) (simp add: gap_near)
  have preb: "\<And>n. n \<in> set pre \<Longrightarrow> unat (fst n) + unat (snd n) + 16 \<le> unat c"
    using S(5) by (auto simp: gap_def)
  have postb: "\<And>n. n \<in> set post \<Longrightarrow> unat c + unat s + 16 \<le> unat (fst n)
                 \<and> unat (fst n) + 16 \<le> 2 ^ 64"
    using S(6) boundedD [OF S(4)] by (fastforce simp: gap_def)
  show "region_size (snd r) = region_size a \<and> mmap_start (snd r) = mmap_start a"
    by (simp add: r_def alloc_split_def Let_def split: prod.splits)
  show "spaced (pre @ res @ post)"
  proof (cases "req < s")
    case False
    then show ?thesis using spaced_drop_mid [OF sp] by (simp add: res_def)
  next
    case True
    have ur: "unat (s - req) = unat s - unat req" using fit by (simp add: unat_sub)
    have le: "unat req \<le> unat s" using fit by (simp add: word_le_nat_alt)
    have us: "unat (c + req) = unat c + unat req"
      by (rule unat_add_nowrap) (use cb le in linarith)
    have "spaced (pre @ (c + req, s - req) # post)"
    proof (rule spaced_midI)
      show "\<forall>n\<in>set pre. gap n (c + req, s - req)"
      proof
        fix n assume "n \<in> set pre"
        from preb [OF this] show "gap n (c + req, s - req)" using us by (simp add: gap_def)
      qed
      show "\<forall>n\<in>set post. gap (c + req, s - req) n"
      proof
        fix n assume "n \<in> set post"
        from postb [OF this] show "gap (c + req, s - req) n"
          using us ur le by (simp add: gap_def)
      qed
      show "unat (fst (c + req, s - req)) + unat (snd (c + req, s - req)) + 16 \<le> 2 ^ 64"
        using cb us ur le by simp
    qed (rule S)+
    then show ?thesis using True by (simp add: res_def)
  qed
  show "flist (fst r) (head (snd r)) (pre @ res @ post)"
  proof (cases "req < s")
    case False
    let ?q = "set_prev_next m (head a) (last_addr None pre) (blk_next m c)"
    have r: "r = (fst ?q, a\<lparr>head := snd ?q\<rparr>)"
      using False cs by (simp add: r_def alloc_split_def Let_def split: prod.splits)
    have s1: "fseg (fst ?q) (snd ?q) pre (blk_next m c)"
      using relink(1) [OF seg swn S(3)] .
    have "\<forall>n\<in>set post. blk_size (fst ?q) (fst n) = blk_size m (fst n)
                       \<and> blk_next (fst ?q) (fst n) = blk_next m (fst n)"
    proof
      fix n assume n: "n \<in> set post"
      show "blk_size (fst ?q) (fst n) = blk_size m (fst n)
            \<and> blk_next (fst ?q) (fst n) = blk_next m (fst n)"
      proof (rule relink(2) [OF seg swn S(3)])
        show "unat (fst n) + 16 \<le> 2 ^ 64" using postb [OF n] by simp
        show "\<forall>k\<in>set pre. unat (fst n) + 16 \<le> unat (fst k) \<or> unat (fst k) + 16 \<le> unat (fst n)"
          using postb [OF n] preb by fastforce
      qed
    qed
    from fseg_cong [OF this] tl have "fseg (fst ?q) (blk_next m c) post 0" by simp
    with s1 show ?thesis using False r by (auto simp: flist_def fseg_append res_def)
  next
    case True
    let ?sp = "c + req"
    let ?m1 = "set_blk_size m ?sp (s - req)"
    let ?m2 = "set_blk_next ?m1 ?sp (blk_next ?m1 c)"
    let ?q = "set_prev_next ?m2 (head a) (last_addr None pre) ?sp"
    have r: "r = (fst ?q, a\<lparr>head := snd ?q\<rparr>)"
      using True cs by (simp add: r_def alloc_split_def Let_def split: prod.splits)
    have le: "unat req < unat s" using True by (simp add: word_less_nat_alt)
    have us: "unat ?sp = unat c + unat req"
      by (rule unat_add_nowrap) (use cb le in linarith)
    have spb: "unat ?sp + 16 \<le> 2 ^ 64" using us cb le by linarith
    have sp0: "?sp \<noteq> 0" using us r16 by (metis add_is_0 not_numeral_le_zero unat_0)
    have cb16: "unat c + 16 \<le> 2 ^ 64" using cb by linarith
    have nx: "blk_next ?m1 c = blk_next m c"
      using node_set_size_frame [of ?sp c m "s - req"] spb cb16 us r16 by simp
    have fr2: "blk_size ?m2 b = blk_size m b \<and> blk_next ?m2 b = blk_next m b"
      if "unat b + 16 \<le> 2 ^ 64" "unat b + 16 \<le> unat ?sp \<or> unat ?sp + 16 \<le> unat b" for b
      using node_set_size_frame [of ?sp b m "s - req"]
            node_set_next_frame [of ?sp b ?m1 "blk_next ?m1 c"] spb that by auto
    have "\<forall>n\<in>set pre. blk_size ?m2 (fst n) = blk_size m (fst n)
                       \<and> blk_next ?m2 (fst n) = blk_next m (fst n)"
    proof
      fix n assume n: "n \<in> set pre"
      show "blk_size ?m2 (fst n) = blk_size m (fst n) \<and> blk_next ?m2 (fst n) = blk_next m (fst n)"
        by (rule fr2) (use preb [OF n] us cb16 in linarith)+
    qed
    from fseg_cong [OF this] seg have seg2: "fseg ?m2 (head a) pre c" by simp
    have s1: "fseg (fst ?q) (snd ?q) pre ?sp"
      using relink(1) [OF seg2 swn S(3)] .
    have apart_pre: "\<forall>k\<in>set pre. unat b + 16 \<le> unat (fst k) \<or> unat (fst k) + 16 \<le> unat b"
      if "unat c \<le> unat b" for b
      using preb that by fastforce
    have q_sp: "blk_size (fst ?q) ?sp = s - req \<and> blk_next (fst ?q) ?sp = blk_next m c"
    proof -
      have "blk_size (fst ?q) ?sp = blk_size ?m2 ?sp \<and> blk_next (fst ?q) ?sp = blk_next ?m2 ?sp"
        by (rule relink(2) [OF seg2 swn S(3) spb]) (rule apart_pre, use us in simp)
      then show ?thesis using spb nx by (simp add: blk_size_set_next)
    qed
    have "\<forall>n\<in>set post. blk_size (fst ?q) (fst n) = blk_size m (fst n)
                       \<and> blk_next (fst ?q) (fst n) = blk_next m (fst n)"
    proof
      fix n assume n: "n \<in> set post"
      have "blk_size (fst ?q) (fst n) = blk_size ?m2 (fst n)
            \<and> blk_next (fst ?q) (fst n) = blk_next ?m2 (fst n)"
        by (rule relink(2) [OF seg2 swn S(3)]) (use postb [OF n] in simp, rule apart_pre, use postb [OF n] in linarith)
      moreover have "blk_size ?m2 (fst n) = blk_size m (fst n) \<and> blk_next ?m2 (fst n) = blk_next m (fst n)"
        by (rule fr2) (use postb [OF n] us le in linarith)+
      ultimately show "blk_size (fst ?q) (fst n) = blk_size m (fst n)
            \<and> blk_next (fst ?q) (fst n) = blk_next m (fst n)" by simp
    qed
    from fseg_cong [OF this] tl have "fseg (fst ?q) (blk_next m c) post 0" by simp
    with s1 q_sp sp0 show ?thesis using True r by (auto simp: flist_def fseg_append res_def)
  qed
qed

lemma unat_req_space:
  assumes "k < 64" "unat sz + 2 ^ k + 17 < 2 ^ 64"
  shows "unat (req_space sz (2 ^ k)) = unat sz + 2 ^ k + 17"
proof -
  have ual: "unat (2 ^ k :: size_t) = 2 ^ k" using assms(1) by (rule unat_pow2_64)
  have "req_space sz (2 ^ k) = sz + 2 ^ k + 17"
    by (simp add: req_space_def sizeof_MemBlock_def)
  moreover have "unat (sz + 2 ^ k :: size_t) = unat sz + 2 ^ k"
    using unat_add_nowrap [of sz "2 ^ k"] ual assms(2) by simp
  moreover have "unat (sz + 2 ^ k + 17 :: size_t) = unat (sz + 2 ^ k :: size_t) + 17"
    using unat_add_nowrap [of "sz + 2 ^ k" 17] calculation(2) assms(2) by simp
  ultimately show ?thesis by simp
qed

lemma Alloc_args_ok:
  assumes "sz \<noteq> 0" "k < 64"
  shows "Alloc m a sz (2 ^ k) =
     (case alloc_walk m (req_space sz (2 ^ k)) None (head a) of
        None \<Rightarrow> None
      | Some (prev, cur) \<Rightarrow>
          if cur = 0 then Some (Inr 0, m, a)
          else
            (let (m1, a1) = alloc_split m a (req_space sz (2 ^ k)) prev cur;
                 (r, m2) = alloc_layout m1 (req_space sz (2 ^ k)) (2 ^ k) cur
             in Some (r, m2, a1)))"
proof -
  have "IsPowerOfTwo (2 ^ k)" using assms(2) by (auto simp: IsPowerOfTwo_iff)
  moreover then have "(2 ^ k :: size_t) \<noteq> 0" by (simp add: IsPowerOfTwo_def)
  ultimately show ?thesis using assms(1) by (simp add: Alloc_def Let_def)
qed

lemma Alloc_no_fit:
  assumes "sz \<noteq> 0" "k < 64" "flist m (head a) xs" "\<forall>n\<in>set xs. snd n < req_space sz (2 ^ k)"
  shows "Alloc m a sz (2 ^ k) = Some (Inr 0, m, a)"
  using alloc_walk_none [of m "head a" xs "req_space sz (2 ^ k)" None] assms
  by (simp add: Alloc_args_ok flist_def)

lemma Alloc_fit_not_null:
  assumes "sz \<noteq> 0" "k < 64" "flist m (head a) (pre @ (c, s) # post)"
    "\<forall>n\<in>set pre. snd n < req_space sz (2 ^ k)" "req_space sz (2 ^ k) \<le> s"
  shows "\<exists>r m' a'. Alloc m a sz (2 ^ k) = Some (r, m', a') \<and> r \<noteq> Inr 0"
proof -
  from assms(3) have seg: "fseg m (head a) pre c" and c0: "c \<noteq> 0" and cs: "blk_size m c = s"
    by (auto simp: flist_def fseg_append)
  have w: "alloc_walk m (req_space sz (2 ^ k)) None (head a) = Some (last_addr None pre, c)"
    using alloc_walk_found [OF seg c0 _ assms(4)] cs assms(5) by simp
  obtain m1 a1 where s: "alloc_split m a (req_space sz (2 ^ k)) (last_addr None pre) c = (m1, a1)"
    by (cases "alloc_split m a (req_space sz (2 ^ k)) (last_addr None pre) c")
  obtain r m2 where l: "alloc_layout m1 (req_space sz (2 ^ k)) (2 ^ k) c = (r, m2)"
    by (cases "alloc_layout m1 (req_space sz (2 ^ k)) (2 ^ k) c")
  have "r \<noteq> Inr 0" using alloc_layout_not_null [of m1 "req_space sz (2 ^ k)" "2 ^ k" c] l by simp
  then show ?thesis using w s l c0 by (simp add: Alloc_args_ok [OF assms(1,2)])
qed

lemma Alloc_ok:
  fixes sz :: size_t and m :: mem and a :: alloc
  assumes sz: "sz \<noteq> 0" and k: "k < 64" and nov: "unat sz + 2 ^ k + 17 < 2 ^ 64"
    and fl: "flist m (head a) (pre @ (c, s) # post)" and sp: "spaced (pre @ (c, s) # post)"
    and small: "\<forall>n\<in>set pre. snd n < req_space sz (2 ^ k)" and fit: "req_space sz (2 ^ k) \<le> s"
  defines "req \<equiv> req_space sz (2 ^ k)"
  defines "res \<equiv> (if req < s then [(c + req, s - req)] else [])"
  shows "\<exists>p m' a'. Alloc m a sz (2 ^ k) = Some (Inr p, m', a')
           \<and> flist m' (head a') (pre @ res @ post) \<and> spaced (pre @ res @ post)
           \<and> region_size a' = region_size a \<and> mmap_start a' = mmap_start a
           \<and> hdr_magic m' c = kMemMagicNum \<and> hdr_size m' c = req - sizeof_MemBlockHeader
           \<and> unat c + 17 \<le> unat p \<and> unat p < unat c + 17 + 2 ^ k
           \<and> read8 m' (p - 1) = ucast (p - (c + 17))"
proof -
  let ?p = "(c + 17 - 1 + 2 ^ k) AND (- (2 ^ k)) :: addr"
  note S = spaced_mid [OF sp]
  have cb: "unat c + unat s + 16 \<le> 2 ^ 64" using S(8) by simp
  have ureq: "unat req = unat sz + 2 ^ k + 17" unfolding req_def using k nov by (rule unat_req_space)
  have le: "unat req \<le> unat s" using fit by (simp add: req_def word_le_nat_alt)
  have r16: "16 \<le> unat req" using ureq by simp
  have cbound: "unat c + unat sz + 2 ^ k + 17 \<le> 2 ^ 64" using cb le ureq by linarith
  from fl have seg: "fseg m (head a) pre c" and c0: "c \<noteq> 0" and cs: "blk_size m c = s"
    by (auto simp: flist_def fseg_append)
  have w: "alloc_walk m req None (head a) = Some (last_addr None pre, c)"
    using alloc_walk_found [OF seg c0 _ small] cs fit by (simp add: req_def)
  obtain m1 a1 where s: "alloc_split m a req (last_addr None pre) c = (m1, a1)"
    by (cases "alloc_split m a req (last_addr None pre) c")
  have fit': "req \<le> s" using fit by (simp add: req_def)
  have fl1: "flist m1 (head a1) (pre @ res @ post)"
    and sp1: "spaced (pre @ res @ post)"
    and reg: "region_size a1 = region_size a \<and> mmap_start a1 = mmap_start a"
    using alloc_split_ok [OF fl sp r16 fit'] s by (simp_all add: res_def)
  let ?m3 = "set_hdr_magic (set_hdr_size m1 c (req - sizeof_MemBlockHeader)) c kMemMagicNum"
  let ?m4 = "write8 ?m3 (?p - 1) (ucast (?p - (c + 17)))"
  have lay: "alloc_layout m1 req (2 ^ k) c = (Inr ?p, ?m4)"
    and plo: "unat c + 17 \<le> unat ?p" and phi: "unat ?p < unat c + 17 + 2 ^ k"
    and pm1: "unat (?p - 1) = unat ?p - 1"
    using alloc_layout_ok(1) [OF k cbound, where m = m1] alloc_layout_ok(2,3,5) [OF k cbound]
    by (simp_all add: req_def)
  have al: "Alloc m a sz (2 ^ k) = Some (Inr ?p, ?m4, a1)"
    using w s lay c0 by (simp add: Alloc_args_ok [OF sz k] req_def)
  have cb16: "unat c + 16 \<le> 2 ^ 64" using cb by linarith
  have fr: "blk_size ?m4 b = blk_size m1 b \<and> blk_next ?m4 b = blk_next m1 b"
    if "unat b + 16 \<le> 2 ^ 64" "unat b + 16 \<le> unat c \<or> unat c + unat req \<le> unat b" for b
  proof -
    have "blk_size (set_hdr_size m1 c (req - sizeof_MemBlockHeader)) b = blk_size m1 b
        \<and> blk_next (set_hdr_size m1 c (req - sizeof_MemBlockHeader)) b = blk_next m1 b"
      by (rule node_set_hdr_size_frame) (use that cb16 r16 in linarith)+
    moreover have "blk_size ?m3 b = blk_size (set_hdr_size m1 c (req - sizeof_MemBlockHeader)) b
        \<and> blk_next ?m3 b = blk_next (set_hdr_size m1 c (req - sizeof_MemBlockHeader)) b"
      by (rule node_set_hdr_magic_frame) (use that cb16 r16 in linarith)+
    moreover have "blk_size ?m4 b = blk_size ?m3 b \<and> blk_next ?m4 b = blk_next ?m3 b"
      by (rule node_write8_frame) (use that pm1 plo phi ureq in linarith)+
    ultimately show ?thesis by simp
  qed
  have "\<forall>n\<in>set (pre @ res @ post). blk_size ?m4 (fst n) = blk_size m1 (fst n)
                       \<and> blk_next ?m4 (fst n) = blk_next m1 (fst n)"
  proof
    fix n assume n: "n \<in> set (pre @ res @ post)"
    have nb: "unat (fst n) + 16 \<le> 2 ^ 64"
      using sp1 n boundedD [of "pre @ res @ post" n] by (simp add: spaced_def)
    have "unat (fst n) + 16 \<le> unat c \<or> unat c + unat req \<le> unat (fst n)"
    proof -
      consider "n \<in> set pre" | "n \<in> set res" | "n \<in> set post" using n by auto
      then show ?thesis
      proof cases
        case 1
        then have "gap n (c, s)" using S(5) by simp
        then show ?thesis by (simp add: gap_def)
      next
        case 2
        then have lt: "req < s" and "n = (c + req, s - req)"
          by (auto simp: res_def split: if_splits)
        moreover have "unat (c + req) = unat c + unat req"
          by (rule unat_add_nowrap) (use cb le in linarith)
        ultimately show ?thesis by simp
      next
        case 3
        then have "gap (c, s) n" using S(6) by simp
        then show ?thesis using le by (simp add: gap_def)
      qed
    qed
    with nb show "blk_size ?m4 (fst n) = blk_size m1 (fst n)
                       \<and> blk_next ?m4 (fst n) = blk_next m1 (fst n)"
      by (rule fr)
  qed
  from fseg_cong [OF this] fl1 have fl4: "flist ?m4 (head a1) (pre @ res @ post)"
    by (simp add: flist_def)
  have h16: "unat c + 16 \<le> unat (?p - 1)" using pm1 plo by linarith
  have hm: "hdr_magic ?m4 c = kMemMagicNum" "hdr_size ?m4 c = req - sizeof_MemBlockHeader"
    using hdr_write8_frame [OF h16] by (simp_all add: hdr_size_set_magic [OF cb16])
  show ?thesis
    using al fl4 sp1 reg hm plo phi by (intro exI [of _ ?p] exI [of _ ?m4] exI [of _ a1]) simp
qed

section \<open>InsertFreeMemBlock on a well-formed free list\<close>

lemma insert_block_split:
  "insert_block b xs =
     takeWhile (\<lambda>x. \<not> fst b + snd b \<le> fst x) xs @ b # dropWhile (\<lambda>x. \<not> fst b + snd b \<le> fst x) xs"
  by (induction xs) auto

lemma joinable_mid:
  assumes "joinable (pre @ x # post)"
  shows "sorted_wrt near pre" "sorted_wrt near post" "bounded pre" "bounded post"
    "\<forall>n\<in>set pre. near n x" "\<forall>n\<in>set post. near x n"
    "\<forall>n\<in>set pre. \<forall>n'\<in>set post. near n n'"
    "unat (fst x) + unat (snd x) + 16 \<le> 2 ^ 64"
  using assms by (auto simp: joinable_def sorted_wrt_append)

lemma InsertFreeMemBlock_ok:
  fixes m :: mem and a :: alloc and h :: addr and sz :: size_t
  assumes fl: "flist m (head a) (pre @ post)" and j: "joinable (pre @ (h, sz) # post)"
    and h0: "h \<noteq> 0" and hs: "blk_size m h = sz"
    and before: "\<forall>n\<in>set pre. \<not> h + sz \<le> fst n"
    and after: "post = [] \<or> h + sz \<le> fst (hd post)"
  shows "\<exists>m' a'. InsertFreeMemBlock m a h = Some (m', a')
           \<and> flist m' (head a') (pre @ (h, sz) # post)
           \<and> region_size a' = region_size a \<and> mmap_start a' = mmap_start a"
proof -
  note J = joinable_mid [OF j]
  have hb: "unat h + 16 \<le> 2 ^ 64" using J(8) by simp
  have preb: "\<And>n. n \<in> set pre \<Longrightarrow> unat (fst n) + 16 \<le> unat h \<and> unat (fst n) + 16 \<le> 2 ^ 64"
    using J(5) boundedD [OF J(3)] by (fastforce dest: nearD)
  have postb: "\<And>n. n \<in> set post \<Longrightarrow> unat h + 16 \<le> unat (fst n) \<and> unat (fst n) + 16 \<le> 2 ^ 64"
    using J(6) boundedD [OF J(4)] by (fastforce dest: nearD)
  have apart_pre: "\<forall>k\<in>set pre. unat b + 16 \<le> unat (fst k) \<or> unat (fst k) + 16 \<le> unat b"
    if "unat h \<le> unat b" for b
    using preb that by fastforce
  from fl obtain q where seg: "fseg m (head a) pre q" and tl: "fseg m q post 0"
    by (auto simp: flist_def fseg_append)
  show ?thesis
  proof (cases post)
    case Nil
    with tl have q0: "q = 0" by simp
    have w: "insert_walk m (head a) h (h + sz) None (head a)
             = Some (m, head a, last_addr None pre, False)"
      using insert_walk_none [of m "head a" pre "h + sz"] seg q0 before by simp
    let ?q = "set_prev_next m (head a) (last_addr None pre) h"
    let ?m3 = "set_blk_next (fst ?q) h 0"
    have ins: "InsertFreeMemBlock m a h = Some (?m3, a\<lparr>head := snd ?q\<rparr>)"
      using w hs by (simp add: InsertFreeMemBlock_def Let_def split: prod.splits)
    have s1: "fseg (fst ?q) (snd ?q) pre h" using relink(1) [OF seg J(1) J(3)] .
    have "\<forall>n\<in>set pre. blk_size ?m3 (fst n) = blk_size (fst ?q) (fst n)
                      \<and> blk_next ?m3 (fst n) = blk_next (fst ?q) (fst n)"
    proof
      fix n assume n: "n \<in> set pre"
      show "blk_size ?m3 (fst n) = blk_size (fst ?q) (fst n)
                      \<and> blk_next ?m3 (fst n) = blk_next (fst ?q) (fst n)"
        by (rule node_set_next_frame) (use preb [OF n] hb in linarith)+
    qed
    from fseg_cong [OF this] s1 have s3: "fseg ?m3 (snd ?q) pre h" by simp
    have "blk_size (fst ?q) h = blk_size m h \<and> blk_next (fst ?q) h = blk_next m h"
      by (rule relink(2) [OF seg J(1) J(3) hb]) (rule apart_pre, simp)
    then have "blk_size ?m3 h = sz" using hs hb by (simp add: blk_size_set_next)
    with s3 h0 have "flist ?m3 (snd ?q) (pre @ [(h, sz)])"
      by (auto simp: flist_def fseg_append)
    then show ?thesis using ins Nil by simp
  next
    case (Cons y post')
    with tl have qy: "q = fst y" and y0: "fst y \<noteq> 0" by auto
    from after Cons have le: "h + sz \<le> fst y" by simp
    let ?m1 = "set_blk_next m h (fst y)"
    let ?q = "set_prev_next ?m1 (head a) (last_addr None pre) h"
    have w: "insert_walk m (head a) h (h + sz) None (head a)
             = Some (fst ?q, snd ?q, last_addr None pre, True)"
      using insert_walk_found [of m "head a" pre "fst y" "h + sz" "head a" h None]
            seg qy y0 le before
      by (simp add: Let_def split: prod.splits)
    have ins: "InsertFreeMemBlock m a h = Some (fst ?q, a\<lparr>head := snd ?q\<rparr>)"
      using w hs by (simp add: InsertFreeMemBlock_def Let_def)
    have fr1: "blk_size ?m1 b = blk_size m b \<and> blk_next ?m1 b = blk_next m b"
      if "unat b + 16 \<le> 2 ^ 64" "unat b + 16 \<le> unat h \<or> unat h + 16 \<le> unat b" for b
      by (rule node_set_next_frame) (use that hb in linarith)+
    have "\<forall>n\<in>set pre. blk_size ?m1 (fst n) = blk_size m (fst n)
                      \<and> blk_next ?m1 (fst n) = blk_next m (fst n)"
    proof
      fix n assume n: "n \<in> set pre"
      show "blk_size ?m1 (fst n) = blk_size m (fst n) \<and> blk_next ?m1 (fst n) = blk_next m (fst n)"
        by (rule fr1) (use preb [OF n] in linarith)+
    qed
    from fseg_cong [OF this] seg have seg1: "fseg ?m1 (head a) pre q" by simp
    have s1: "fseg (fst ?q) (snd ?q) pre h" using relink(1) [OF seg1 J(1) J(3)] .
    have "blk_size (fst ?q) h = blk_size ?m1 h \<and> blk_next (fst ?q) h = blk_next ?m1 h"
      by (rule relink(2) [OF seg1 J(1) J(3) hb]) (rule apart_pre, simp)
    then have hh: "blk_size (fst ?q) h = sz" "blk_next (fst ?q) h = fst y"
      using hs hb by (simp_all add: blk_size_set_next)
    have "\<forall>n\<in>set post. blk_size (fst ?q) (fst n) = blk_size m (fst n)
                      \<and> blk_next (fst ?q) (fst n) = blk_next m (fst n)"
    proof
      fix n assume n: "n \<in> set post"
      have "blk_size (fst ?q) (fst n) = blk_size ?m1 (fst n)
            \<and> blk_next (fst ?q) (fst n) = blk_next ?m1 (fst n)"
        by (rule relink(2) [OF seg1 J(1) J(3)])
           (use postb [OF n] in simp, rule apart_pre, use postb [OF n] in linarith)
      moreover have "blk_size ?m1 (fst n) = blk_size m (fst n)
            \<and> blk_next ?m1 (fst n) = blk_next m (fst n)"
        by (rule fr1) (use postb [OF n] in linarith)+
      ultimately show "blk_size (fst ?q) (fst n) = blk_size m (fst n)
                      \<and> blk_next (fst ?q) (fst n) = blk_next m (fst n)" by simp
    qed
    from fseg_cong [OF this] tl have "fseg (fst ?q) q post 0" by simp
    with s1 hh h0 qy have "flist (fst ?q) (snd ?q) (pre @ (h, sz) # post)"
      by (auto simp: flist_def fseg_append)
    then show ?thesis using ins by simp
  qed
qed

section \<open>MergeFreeBlocks and Free on a well-formed free list\<close>

lemma merge_adjacent_hd:
  "\<exists>t zs. merge_adjacent (x # xs) = (fst x, t) # zs"
proof (induction "x # xs" arbitrary: x xs rule: merge_adjacent.induct)
  case (2 x)
  then show ?case by (cases x) simp
next
  case (3 x y xs)
  then show ?case by (cases x) auto
qed

lemma merge_adjacent_addrs:
  "fst ` set (merge_adjacent xs) \<subseteq> fst ` set xs"
proof (induction xs rule: merge_adjacent.induct)
  case (3 x y xs)
  then show ?case by (auto split: if_splits)
qed simp_all

lemma touchD:
  assumes "near x y" "fst x + snd x = fst y" "unat (fst x) + unat (snd x) + 16 \<le> 2 ^ 64"
  shows "unat (fst x) + unat (snd x) = unat (fst y) \<and> 16 \<le> unat (snd x)"
proof -
  have "unat (fst x + snd x) = unat (fst x) + unat (snd x)"
    by (rule unat_add_nowrap) (use assms(3) in linarith)
  then have "unat (fst y) = unat (fst x) + unat (snd x)" using assms(2) by simp
  then show ?thesis using assms(1) by (auto simp: near_def gap_def)
qed

lemma apartD:
  assumes "near x y" "fst x + snd x \<noteq> fst y"
  shows "gap x y"
proof (rule ccontr)
  assume "\<not> gap x y"
  with assms(1) have t: "unat (fst x) + unat (snd x) = unat (fst y)" by (simp add: near_def)
  have "unat (fst y) < 2 ^ 64" using unsigned_less [of "fst y"] by simp
  then have "unat (fst x + snd x) = unat (fst x) + unat (snd x)"
    using t by (intro unat_add_nowrap) simp
  then have "fst x + snd x = fst y" using t by (simp add: word_unat_eq_iff)
  with assms(2) show False by simp
qed

lemma joinable_Cons2:
  "joinable (x # y # xs) \<longleftrightarrow>
     near x y \<and> (\<forall>n\<in>set xs. near x n) \<and> unat (fst x) + unat (snd x) + 16 \<le> 2 ^ 64
     \<and> joinable (y # xs)"
  by (auto simp: joinable_def)

lemma near_trans_gap: "near x y \<Longrightarrow> near y z \<Longrightarrow> gap x z"
  by (auto simp: near_def gap_def)

lemma merge_walk_ok:
  "xs \<noteq> [] \<Longrightarrow> fseg m (fst (hd xs)) xs 0 \<Longrightarrow> joinable xs \<Longrightarrow>
   \<exists>m'. merge_walk m (fst (hd xs)) = Some m'
        \<and> fseg m' (fst (hd xs)) (merge_adjacent xs) 0
        \<and> spaced (merge_adjacent xs)
        \<and> (\<forall>b. clear_of b xs \<longrightarrow> blk_size m' b = blk_size m b \<and> blk_next m' b = blk_next m b)"
proof (induction xs arbitrary: m rule: merge_adjacent.induct)
  case 1
  then show ?case by simp
next
  case (2 x)
  then have "blk_next m (fst x) = 0" by simp
  then have "merge_walk m (fst x) = Some m" by (subst merge_walk.simps) simp
  then show ?case using 2 by (simp add: spaced_def joinable_def)
next
  case (3 x y xs)
  let ?c = "fst x"
  from "3.prems"(2) have c0: "?c \<noteq> 0" and cs: "blk_size m ?c = snd x"
    and cn: "blk_next m ?c = fst y" and y0: "fst y \<noteq> 0" and ys: "blk_size m (fst y) = snd y"
    and tl: "fseg m (blk_next m (fst y)) xs 0" and ytl: "fseg m (fst y) (y # xs) 0"
    by auto
  from "3.prems"(3) have nxy: "near x y" and nx: "\<forall>n\<in>set xs. near x n"
    and xb: "unat ?c + unat (snd x) + 16 \<le> 2 ^ 64" and jy: "joinable (y # xs)"
    by (simp_all add: joinable_Cons2)
  have yb: "unat (fst y) + unat (snd y) + 16 \<le> 2 ^ 64"
    using jy by (simp add: joinable_def)
  have ny: "\<forall>n\<in>set xs. near y n" using jy by (simp add: joinable_def)
  have cb: "unat ?c + 16 \<le> 2 ^ 64" using xb by linarith
  have after_c: "unat ?c + 16 \<le> unat (fst n) \<and> unat (fst n) + 16 \<le> 2 ^ 64"
    if "n \<in> set (y # xs)" for n
  proof -
    have "near x n" using that nxy nx by auto
    moreover have "unat (fst n) + unat (snd n) + 16 \<le> 2 ^ 64"
      using jy that boundedD [of "y # xs" n] by (simp add: joinable_def)
    ultimately show ?thesis by (auto dest: nearD)
  qed
  show ?case
  proof (cases "fst x + snd x = fst y")
    case True
    let ?m1 = "set_blk_next m ?c (blk_next m (fst y))"
    let ?m2 = "set_blk_size ?m1 ?c (snd x + snd y)"
    let ?z = "(fst x, snd x + snd y)"
    have t: "unat ?c + unat (snd x) = unat (fst y)" "16 \<le> unat (snd x)"
      using touchD [OF nxy True xb] by simp_all
    have usum: "unat (snd x + snd y) = unat (snd x) + unat (snd y)"
      by (rule unat_add_nowrap) (use yb t in linarith)
    have s1c: "blk_size ?m1 ?c = snd x" using cs cb by (simp add: blk_size_set_next)
    have s1y: "blk_size ?m1 (fst y) = snd y"
      using node_set_next_frame [of ?c "fst y" m "blk_next m (fst y)"] after_c [of y] cb ys by simp
    have step: "merge_walk m ?c = merge_walk ?m2 ?c"
      using cn y0 True cs s1c s1y
      by (subst merge_walk.simps) (simp add: Let_def)
    have fr2: "blk_size ?m2 b = blk_size m b \<and> blk_next ?m2 b = blk_next m b"
      if "unat b + 16 \<le> 2 ^ 64" "unat b + 16 \<le> unat ?c \<or> unat ?c + 16 \<le> unat b" for b
      using node_set_next_frame [of ?c b m "blk_next m (fst y)"]
            node_set_size_frame [of ?c b ?m1 "snd x + snd y"] cb that by auto
    have "\<forall>n\<in>set xs. blk_size ?m2 (fst n) = blk_size m (fst n)
                     \<and> blk_next ?m2 (fst n) = blk_next m (fst n)"
    proof
      fix n assume "n \<in> set xs"
      then have "unat ?c + 16 \<le> unat (fst n) \<and> unat (fst n) + 16 \<le> 2 ^ 64"
        using after_c [of n] by simp
      then show "blk_size ?m2 (fst n) = blk_size m (fst n)
                     \<and> blk_next ?m2 (fst n) = blk_next m (fst n)"
        by (intro fr2) auto
    qed
    from fseg_cong [OF this] tl have "fseg ?m2 (blk_next m (fst y)) xs 0" by simp
    moreover have "blk_next ?m2 ?c = blk_next m (fst y)" using cb by (simp add: blk_next_set_size)
    ultimately have seg2: "fseg ?m2 (fst (hd (?z # xs))) (?z # xs) 0" using c0 by simp
    have j2: "joinable (?z # xs)"
    proof -
      have "near ?z n" if "n \<in> set xs" for n
      proof -
        have "near y n" using ny that by simp
        then show ?thesis using t usum by (auto simp: near_def gap_def)
      qed
      moreover have "unat (fst ?z) + unat (snd ?z) + 16 \<le> 2 ^ 64" using yb t usum by simp
      moreover have "sorted_wrt near xs" "bounded xs" using jy by (simp_all add: joinable_def)
      ultimately show ?thesis by (simp add: joinable_def)
    qed
    from "3.IH"(1) [OF True _ seg2 j2] obtain m' where
      mw: "merge_walk ?m2 ?c = Some m'"
      and sg: "fseg m' ?c (merge_adjacent (?z # xs)) 0"
      and sp: "spaced (merge_adjacent (?z # xs))"
      and fr: "\<forall>b. clear_of b (?z # xs) \<longrightarrow> blk_size m' b = blk_size ?m2 b \<and> blk_next m' b = blk_next ?m2 b"
      by auto
    have "blk_size m' b = blk_size m b \<and> blk_next m' b = blk_next m b"
      if "clear_of b (x # y # xs)" for b
    proof -
      from that have "clear_of b (?z # xs)" by (simp add: clear_of_def)
      with fr have "blk_size m' b = blk_size ?m2 b \<and> blk_next m' b = blk_next ?m2 b" by simp
      moreover from that have "blk_size ?m2 b = blk_size m b \<and> blk_next ?m2 b = blk_next m b"
        by (intro fr2) (auto simp: clear_of_def)
      ultimately show ?thesis by simp
    qed
    then show ?thesis using step mw sg sp True by simp
  next
    case False
    have step: "merge_walk m ?c = merge_walk m (fst y)"
      using cn y0 False cs by (subst merge_walk.simps) (simp add: Let_def)
    from "3.IH"(2) [OF False _ _ jy] ytl obtain m' where
      mw: "merge_walk m (fst y) = Some m'"
      and sg: "fseg m' (fst y) (merge_adjacent (y # xs)) 0"
      and sp: "spaced (merge_adjacent (y # xs))"
      and fr: "\<forall>b. clear_of b (y # xs) \<longrightarrow> blk_size m' b = blk_size m b \<and> blk_next m' b = blk_next m b"
      by auto
    have "clear_of ?c (y # xs)"
      using after_c cb by (auto simp: clear_of_def list_all_iff)
    with fr cs cn have c': "blk_size m' ?c = snd x" "blk_next m' ?c = fst y" by simp_all
    have sg': "fseg m' ?c (x # merge_adjacent (y # xs)) 0" using c' c0 sg by simp
    have gxy: "gap x y" using nxy False by (rule apartD)
    have "gap x z" if "z \<in> set (merge_adjacent (y # xs))" for z
    proof -
      have "fst z \<in> fst ` set (merge_adjacent (y # xs))" using that by (rule imageI)
      then have "fst z \<in> fst ` set (y # xs)" using merge_adjacent_addrs by blast
      then obtain n where n: "n \<in> set (y # xs)" "fst z = fst n" by blast
      have "gap x n"
      proof (cases "n = y")
        case True
        then show ?thesis using gxy by simp
      next
        case False
        then have "n \<in> set xs" using n by simp
        then have "near y n" using ny by simp
        with nxy show ?thesis by (rule near_trans_gap)
      qed
      then show ?thesis using n(2) by (simp add: gap_def)
    qed
    then have sp': "spaced (x # merge_adjacent (y # xs))"
      using sp xb by (simp add: spaced_def)
    have "blk_size m' b = blk_size m b \<and> blk_next m' b = blk_next m b"
      if "clear_of b (x # y # xs)" for b
      using that fr by (simp add: clear_of_def)
    then show ?thesis using step mw sg' sp' False by simp
  qed
qed

lemma fseg_hd: "xs \<noteq> [] \<Longrightarrow> fseg m p xs q \<Longrightarrow> p = fst (hd xs) \<and> p \<noteq> 0"
  by (cases xs) auto

lemma Free_ok:
  fixes m :: mem and a :: alloc and p h :: addr and sz :: size_t
  assumes p0: "p \<noteq> 0"
    and h: "h = p - sizeof_MemBlockHeader - ucast (read8 m (p - 1)) - 1"
    and magic: "hdr_magic m h = kMemMagicNum"
    and sz: "sz = hdr_size m h + sizeof_MemBlockHeader"
    and h0: "h \<noteq> 0"
    and fl: "flist m (head a) xs"
    and j: "joinable (insert_block (h, sz) xs)"
  shows "\<exists>m' a'. Free m a p = Some (Inr (), m', a')
           \<and> flist m' (head a') (merge_adjacent (insert_block (h, sz) xs))
           \<and> spaced (merge_adjacent (insert_block (h, sz) xs))
           \<and> region_size a' = region_size a \<and> mmap_start a' = mmap_start a"
proof -
  let ?P = "\<lambda>n :: node. \<not> h + sz \<le> fst n"
  let ?pre = "takeWhile ?P xs" and ?post = "dropWhile ?P xs"
  let ?ys = "?pre @ (h, sz) # ?post"
  have ys: "insert_block (h, sz) xs = ?ys" using insert_block_split [of "(h, sz)" xs] by simp
  have xs: "xs = ?pre @ ?post" by simp
  from j have jy: "joinable ?ys" by (simp only: ys)
  note J = joinable_mid [OF jy]
  have hb: "unat h + 16 \<le> 2 ^ 64" using J(8) by simp
  let ?m1 = "set_blk_size m h (hdr_size m h + sizeof_MemBlockHeader)"
  let ?m2 = "set_blk_next ?m1 h 0"
  have "\<forall>n\<in>set xs. blk_size ?m2 (fst n) = blk_size m (fst n)
                   \<and> blk_next ?m2 (fst n) = blk_next m (fst n)"
  proof
    fix n assume "n \<in> set xs"
    then have "n \<in> set ?pre \<or> n \<in> set ?post" using xs by (metis Un_iff set_append)
    then have ap: "unat (fst n) + 16 \<le> unat h \<or> unat h + 16 \<le> unat (fst n)"
    proof
      assume "n \<in> set ?pre"
      then have "near n (h, sz)" using J(5) by blast
      then show ?thesis using nearD [of n "(h, sz)"] by simp
    next
      assume "n \<in> set ?post"
      then have "near (h, sz) n" using J(6) by blast
      then show ?thesis using nearD [of "(h, sz)" n] by simp
    qed
    have nb: "unat (fst n) + 16 \<le> 2 ^ 64"
      using \<open>n \<in> set ?pre \<or> n \<in> set ?post\<close> boundedD [OF J(3), of n] boundedD [OF J(4), of n]
      by auto
    have "blk_size ?m1 (fst n) = blk_size m (fst n) \<and> blk_next ?m1 (fst n) = blk_next m (fst n)"
      by (rule node_set_size_frame) (use ap nb hb in linarith)+
    moreover have "blk_size ?m2 (fst n) = blk_size ?m1 (fst n)
                   \<and> blk_next ?m2 (fst n) = blk_next ?m1 (fst n)"
      by (rule node_set_next_frame) (use ap nb hb in linarith)+
    ultimately show "blk_size ?m2 (fst n) = blk_size m (fst n)
                   \<and> blk_next ?m2 (fst n) = blk_next m (fst n)" by simp
  qed
  from fseg_cong [OF this] fl have fl2: "flist ?m2 (head a) (?pre @ ?post)"
    by (simp add: flist_def)
  have hs2: "blk_size ?m2 h = sz" using hb sz by (simp add: blk_size_set_next)
  have before: "\<forall>n\<in>set ?pre. \<not> h + sz \<le> fst n"
    by (auto dest: set_takeWhileD)
  have after: "?post = [] \<or> h + sz \<le> fst (hd ?post)"
    using hd_dropWhile [of ?P xs] by auto
  from InsertFreeMemBlock_ok [OF fl2 jy h0 hs2 before after] obtain m3 a3 where
    ins: "InsertFreeMemBlock ?m2 a h = Some (m3, a3)"
    and fl3: "flist m3 (head a3) ?ys"
    and reg: "region_size a3 = region_size a \<and> mmap_start a3 = mmap_start a"
    by blast
  have ne: "?ys \<noteq> []" by simp
  from fseg_hd [OF ne] fl3 have hd3: "head a3 = fst (hd ?ys)" "head a3 \<noteq> 0"
    by (simp_all add: flist_def)
  from merge_walk_ok [OF ne _ jy, of m3] fl3 hd3 obtain m4 where
    mw: "merge_walk m3 (head a3) = Some m4"
    and fl4: "flist m4 (head a3) (merge_adjacent ?ys)"
    and sp4: "spaced (merge_adjacent ?ys)"
    by (auto simp: flist_def)
  have "Free m a p = Some (Inr (), m4, a3)"
    using p0 h magic ins mw hd3 by (simp add: Free_def Let_def MergeFreeBlocks_def)
  then show ?thesis using fl4 sp4 reg by (simp only: ys) simp
qed

section \<open>First fit, the constructor and the two list properties\<close>

lemma first_fit_None: "first_fit req xs = None \<longleftrightarrow> (\<forall>n\<in>set xs. snd n < req)"
  by (induction xs) (auto simp: not_le)

lemma first_fit_Some:
  "first_fit req xs = Some (c, ys) \<Longrightarrow>
   \<exists>pre s post. xs = pre @ (c, s) # post \<and> (\<forall>n\<in>set pre. snd n < req) \<and> req \<le> s
      \<and> ys = pre @ (if req < s then [(c + req, s - req)] else []) @ post"
proof (induction xs arbitrary: ys)
  case Nil
  then show ?case by simp
next
  case (Cons x xs)
  show ?case
  proof (cases "req \<le> snd x")
    case True
    with Cons.prems have "c = fst x" "ys = (if req < snd x then [(fst x + req, snd x - req)] else []) @ xs"
      by (auto split: if_splits)
    then have "x # xs = [] @ (c, snd x) # xs \<and> (\<forall>n\<in>set []. snd n < req) \<and> req \<le> snd x
      \<and> ys = [] @ (if req < snd x then [(c + req, snd x - req)] else []) @ xs"
      using True by simp
    then show ?thesis by blast
  next
    case False
    with Cons.prems obtain zs where z: "first_fit req xs = Some (c, zs)" "ys = x # zs"
      by auto
    from Cons.IH [OF z(1)] obtain pre s post where
      "xs = pre @ (c, s) # post" "\<forall>n\<in>set pre. snd n < req" "req \<le> s"
      "zs = pre @ (if req < s then [(c + req, s - req)] else []) @ post"
      by blast
    then have "x # xs = (x # pre) @ (c, s) # post \<and> (\<forall>n\<in>set (x # pre). snd n < req) \<and> req \<le> s
      \<and> ys = (x # pre) @ (if req < s then [(c + req, s - req)] else []) @ post"
      using False z(2) by (simp add: not_le)
    then show ?thesis by blast
  qed
qed

lemma spaced_ascending: "spaced xs \<Longrightarrow> ascending xs"
proof -
  assume "spaced xs"
  then have "sorted_wrt gap xs" by (simp add: spaced_def)
  then show "ascending xs"
    unfolding ascending_def
    by (rule sorted_wrt_mono_rel [rotated]) (simp add: gap_def word_less_nat_alt)
qed

lemma spaced_non_contiguous: "spaced xs \<Longrightarrow> non_contiguous xs"
proof (induction xs rule: induct_list012)
  case (3 x y zs)
  from "3.prems" have g: "gap x y" and b: "unat (fst x) + unat (snd x) + 16 \<le> 2 ^ 64"
    and r: "spaced (y # zs)"
    by (auto simp: spaced_def)
  have "unat (fst x + snd x) = unat (fst x) + unat (snd x)"
    by (rule unat_add_nowrap) (use b in linarith)
  then have "fst x + snd x \<noteq> fst y" using g by (auto simp: gap_def)
  then show ?case using "3.IH"(2) [OF r] by (simp add: non_contiguous_def)
qed (simp_all add: non_contiguous_def)

lemma ctor_free_list:
  assumes c: "Malloc_ctor N kPageSize mmap_ret e m maps = (Inr a, m', maps')"
    and fits: "unat mmap_ret + unat (region_size a) \<le> 2 ^ 64" and big: "16 \<le> unat (region_size a)"
  shows "flist m' (head a) [(mmap_start a, region_size a - sizeof_MemBlock)]
       \<and> spaced [(mmap_start a, region_size a - sizeof_MemBlock)]
       \<and> head a = mmap_start a \<and> mmap_start a = mmap_ret"
proof -
  let ?rs = "region_size a"
  from c have r0: "mmap_ret \<noteq> 0" and a: "head a = mmap_ret" "mmap_start a = mmap_ret"
    and m': "m' = set_blk_next (set_blk_size m mmap_ret (?rs - sizeof_MemBlock)) mmap_ret 0"
    by (auto simp: Malloc_ctor_def Let_def split: if_splits)
  have rb: "unat mmap_ret + 16 \<le> 2 ^ 64" using fits big by linarith
  have "unat (?rs - sizeof_MemBlock) = unat ?rs - 16"
    using big by (simp add: sizeof_MemBlock_def unat_sub word_le_nat_alt)
  then have "spaced [(mmap_start a, ?rs - sizeof_MemBlock)]"
    using fits big a by (simp add: spaced_def)
  moreover have "flist m' (head a) [(mmap_start a, ?rs - sizeof_MemBlock)]"
    using r0 a m' rb by (simp add: flist_def blk_size_set_next)
  ultimately show ?thesis using a by simp
qed

lemma InsertFreeMemBlock_splices:
  assumes fl: "flist m (head a) xs" and h0: "h \<noteq> 0"
    and j: "joinable (insert_block (h, blk_size m h) xs)"
  shows "\<exists>m' a'. InsertFreeMemBlock m a h = Some (m', a')
           \<and> flist m' (head a') (insert_block (h, blk_size m h) xs)"
proof -
  let ?sz = "blk_size m h"
  let ?P = "\<lambda>n :: node. \<not> h + ?sz \<le> fst n"
  let ?pre = "takeWhile ?P xs" and ?post = "dropWhile ?P xs"
  have ys: "insert_block (h, ?sz) xs = ?pre @ (h, ?sz) # ?post"
    using insert_block_split [of "(h, ?sz)" xs] by simp
  from j have jy: "joinable (?pre @ (h, ?sz) # ?post)" by (simp only: ys)
  have fl2: "flist m (head a) (?pre @ ?post)" using fl by simp
  have before: "\<forall>n\<in>set ?pre. \<not> h + ?sz \<le> fst n" by (auto dest: set_takeWhileD)
  have after: "?post = [] \<or> h + ?sz \<le> fst (hd ?post)"
    using hd_dropWhile [of ?P xs] by auto
  from InsertFreeMemBlock_ok [OF fl2 jy h0 refl before after] show ?thesis
    by (simp only: ys) blast
qed

section \<open>Alloc followed by Free, alignments of at most 256\<close>

text \<open>
  The count of bytes skipped for alignment is kept in one byte. While the alignment is at most
  256 the count is below 256, the byte holds it exactly, and \<open>Free\<close> recovers the header
  of the block.
\<close>

lemma ucast_byte_back:
  fixes d :: "64 word"
  assumes "unat d < 256"
  shows "(ucast (ucast d :: 8 word) :: 64 word) = d"
proof -
  have "unat (ucast (ucast d :: 8 word) :: 64 word) = unat d"
    using assms by (simp add: unsigned_ucast_eq take_bit_nat_eq_self_iff unsigned_take_bit_eq)
  then show ?thesis by (simp add: word_unat_eq_iff)
qed

lemma Alloc_header_recoverable:
  fixes sz :: size_t and m :: mem and a :: alloc
  assumes sz: "sz \<noteq> 0" and k: "k < 64" and small: "(2::nat) ^ k \<le> 256"
    and nov: "unat sz + 2 ^ k + 17 < 2 ^ 64"
    and fl: "flist m (head a) (pre @ (c, s) # post)" and sp: "spaced (pre @ (c, s) # post)"
    and before: "\<forall>n\<in>set pre. snd n < req_space sz (2 ^ k)" and fit: "req_space sz (2 ^ k) \<le> s"
  shows "\<exists>p m' a'. Alloc m a sz (2 ^ k) = Some (Inr p, m', a')
           \<and> flist m' (head a')
                (pre @ (if req_space sz (2 ^ k) < s
                        then [(c + req_space sz (2 ^ k), s - req_space sz (2 ^ k))] else []) @ post)
           \<and> p \<noteq> 0
           \<and> p - sizeof_MemBlockHeader - ucast (read8 m' (p - 1)) - 1 = c
           \<and> hdr_magic m' c = kMemMagicNum
           \<and> hdr_size m' c + sizeof_MemBlockHeader = req_space sz (2 ^ k)"
proof -
  from Alloc_ok [OF sz k nov fl sp before fit] obtain p m' a' where
    al: "Alloc m a sz (2 ^ k) = Some (Inr p, m', a')"
    and fl': "flist m' (head a')
                (pre @ (if req_space sz (2 ^ k) < s
                        then [(c + req_space sz (2 ^ k), s - req_space sz (2 ^ k))] else []) @ post)"
    and hm: "hdr_magic m' c = kMemMagicNum"
    and hs: "hdr_size m' c = req_space sz (2 ^ k) - sizeof_MemBlockHeader"
    and lo: "unat c + 17 \<le> unat p" and hi: "unat p < unat c + 17 + 2 ^ k"
    and shim: "read8 m' (p - 1) = ucast (p - (c + 17))"
    by blast
  have pk: "(1::nat) \<le> 2 ^ k" by simp
  have "unat p < 2 ^ 64" using unsigned_less [of p] by simp
  then have "unat c + unat (17 :: addr) < 2 ^ 64" using lo by simp
  then have u17: "unat (c + 17) = unat c + 17" using unat_add_nowrap [of c 17] by simp
  then have "c + 17 \<le> p" using lo by (simp add: word_le_nat_alt)
  then have "unat (p - (c + 17)) = unat p - (unat c + 17)" using u17 by (simp add: unat_sub)
  then have "unat (p - (c + 17)) < 256" using hi small by linarith
  then have "(ucast (read8 m' (p - 1)) :: 64 word) = p - (c + 17)"
    unfolding shim by (rule ucast_byte_back)
  then have rec: "p - sizeof_MemBlockHeader - ucast (read8 m' (p - 1)) - 1 = c"
    by (simp add: sizeof_MemBlockHeader_def)
  have p0: "p \<noteq> 0" using lo by (metis add_is_0 le_zero_eq unat_0 zero_neq_numeral)
  show ?thesis using al fl' p0 rec hm hs by (intro exI [of _ p] exI [of _ m'] exI [of _ a']) simp
qed

text \<open>
  One allocation from a free list of one node, with an alignment of at most 256, and the
  \<open>Free\<close> of its pointer give the node back.
\<close>

lemma roundtrip_one:
  fixes sz :: size_t and m :: mem and a :: alloc
  assumes sz: "sz \<noteq> 0" and k: "k < 64" and small: "(2::nat) ^ k \<le> 256"
    and nov: "unat sz + 2 ^ k + 17 < 2 ^ 64"
    and fl: "flist m (head a) [(c, s)]" and sp: "spaced [(c, s)]"
    and fit: "req_space sz (2 ^ k) \<le> s"
  shows "\<exists>p m1 a1 m2 a2. Alloc m a sz (2 ^ k) = Some (Inr p, m1, a1)
            \<and> Free m1 a1 p = Some (Inr (), m2, a2) \<and> flist m2 (head a2) [(c, s)]"
proof -
  let ?req = "req_space sz (2 ^ k)"
  let ?res = "if ?req < s then [(c + ?req, s - ?req)] else []"
  from Alloc_header_recoverable [OF sz k small nov, of m a "[]" c s "[]"] fl sp fit
  obtain p m1 a1 where al: "Alloc m a sz (2 ^ k) = Some (Inr p, m1, a1)"
    and fl1: "flist m1 (head a1) ?res" and p0: "p \<noteq> 0"
    and rec: "p - sizeof_MemBlockHeader - ucast (read8 m1 (p - 1)) - 1 = c"
    and hm: "hdr_magic m1 c = kMemMagicNum"
    and hs: "hdr_size m1 c + sizeof_MemBlockHeader = ?req"
    by auto
  from fl have c0: "c \<noteq> 0" by (simp add: flist_def)
  from sp have cb: "unat c + unat s + 16 \<le> 2 ^ 64" by (simp add: spaced_def)
  have ureq: "unat ?req = unat sz + 2 ^ k + 17" using k nov by (rule unat_req_space)
  have le: "unat ?req \<le> unat s" using fit by (simp add: word_le_nat_alt)
  have j: "joinable (insert_block (c, ?req) ?res)"
    and mg: "merge_adjacent (insert_block (c, ?req) ?res) = [(c, s)]"
  proof -
    show "joinable (insert_block (c, ?req) ?res)"
    proof (cases "?req < s")
      case True
      have "unat (c + ?req) = unat c + unat ?req"
        by (rule unat_add_nowrap) (use cb le in linarith)
      moreover have "unat (s - ?req) = unat s - unat ?req" using fit by (simp add: unat_sub)
      ultimately show ?thesis using True cb le ureq
        by (simp add: joinable_def near_def gap_def)
    next
      case False
      then have "?req = s" using fit by simp
      then show ?thesis using False cb by (simp add: joinable_def)
    qed
    show "merge_adjacent (insert_block (c, ?req) ?res) = [(c, s)]"
      using fit by (cases "?req < s") auto
  qed
  from Free_ok [OF p0 rec [symmetric], of "?req" a1 ?res] hm hs c0 fl1 j
  obtain m2 a2 where "Free m1 a1 p = Some (Inr (), m2, a2)"
    "flist m2 (head a2) (merge_adjacent (insert_block (c, ?req) ?res))"
    by (auto simp: rec)
  then show ?thesis using al mg
    by (intro exI [of _ p] exI [of _ m1] exI [of _ a1] exI [of _ m2] exI [of _ a2]) simp
qed

section \<open>The test allocator\<close>

lemma test_ctor_full:
  "Malloc_ctor 4096 4096 0x10000 [] zero_mem [] = (Inr test_alloc, test_mem, [(0x10000, 4096)])"
  by (simp add: Malloc_ctor_def Let_def test_alloc_def test_mem_def mmap_os_def MAP_FAILED_def)

lemma test_flist: "flist test_mem (head test_alloc) [(0x10000, 4080)]"
  by (simp add: flist_def test_alloc_def) code_simp

lemma test2_flist: "flist test_mem2 (head test_alloc2) [(0x1007D, 3955)]"
  by (simp add: flist_def) code_simp

lemma test2_header:
  "0x10018 - sizeof_MemBlockHeader - ucast (read8 test_mem2 (0x10018 - 1)) - 1 = (0x10000 :: addr)"
  "hdr_size test_mem2 0x10000 + sizeof_MemBlockHeader = 125"
  "hdr_magic test_mem2 0x10000 = kMemMagicNum"
  by code_simp+

lemma test_blk_size: "blk_size test_mem 0x10000 = 4080"
  by code_simp

section \<open>Alignment of the returned pointer\<close>

lemma alloc_layout_aligned:
  assumes "k < 64" "alloc_layout m req (2 ^ k) c = (Inr p, m')"
  shows "unat p mod 2 ^ k = 0"
proof -
  let ?m3 = "set_hdr_magic (set_hdr_size m c (req - sizeof_MemBlockHeader)) c kMemMagicNum"
  let ?al = "std_align (2 ^ k) (hdr_size ?m3 c - 1 - 2 ^ k)
       (c + sizeof_MemBlockHeader + 1) (hdr_size ?m3 c - 1)"
  obtain q sp where q: "?al = (q, sp)" by (cases ?al)
  with assms(2) have "p = q"
    by (simp add: alloc_layout_def Let_def split: if_splits)
  moreover have "unat q mod 2 ^ k = 0"
    using std_align_aligned [OF assms(1)] q by (metis fst_conv)
  ultimately show ?thesis by simp
qed

text \<open>
  C5. Every pointer \<open>p\<close> that \<open>Alloc m a sz al\<close> returns is a multiple of \<open>al\<close>
  (\<^verbatim>\<open>ptr % a == 0\<close>). That \<open>al\<close> is a power of two follows from the call having returned.
\<close>

theorem Alloc_returns_aligned:
  assumes "Alloc m a sz al = Some (Inr p, m', a')"
  shows "unat p mod unat al = 0"
proof -
  from assms have pw: "IsPowerOfTwo al"
    by (auto simp: Alloc_def split: if_splits)
  then obtain k where k: "k < 64" "al = 2 ^ k" by (auto simp: IsPowerOfTwo_iff)
  have ual: "unat al = 2 ^ k" using k by (simp add: unat_pow2_64)
  from assms pw obtain prev c where
    w: "alloc_walk m (req_space sz al) None (head a) = Some (prev, c)"
    by (auto simp: Alloc_def Let_def split: if_splits option.splits)
  show ?thesis
  proof (cases "c = 0")
    case True
    with assms pw w have "p = 0"
      by (auto simp: Alloc_def Let_def split: if_splits)
    then show ?thesis by simp
  next
    case False
    with assms pw w obtain m1 where "alloc_layout m1 (req_space sz al) al c = (Inr p, m')"
      by (auto simp: Alloc_def Let_def split: if_splits prod.splits)
    then show ?thesis using alloc_layout_aligned [OF k(1)] k(2) ual by simp
  qed
qed

theorem Alloc_returns_aligned_witness:
  "map_option fst (Alloc test_mem test_alloc 100 128) = Some (Inr 0x10080)
   \<and> unat (0x10080 :: addr) mod unat (128 :: size_t) = 0"
proof -
  have e: "map_option fst (Alloc test_mem test_alloc 100 128) = Some (Inr 0x10080)"
    by code_simp
  then obtain m' a' where "Alloc test_mem test_alloc 100 128 = Some (Inr 0x10080, m', a')"
    by (cases "Alloc test_mem test_alloc 100 128") auto
  from Alloc_returns_aligned [OF this] e show ?thesis by simp
qed

section \<open>Errors\<close>

text \<open>
  C6. \<open>Alloc\<close> throws \<^verbatim>\<open>std::invalid_argument\<close> exactly when the size is 0, the alignment is 0
  or the alignment is not a power of two; \<open>Free\<close> throws \<^verbatim>\<open>std::runtime_error\<close> exactly when
  the pointer is null or the header recovered from it does not hold the magic number; and
  whenever either throws, the memory and the allocator object are what they were.
\<close>

theorem errors_raised_exactly:
  "((\<exists>msg m' a'. Alloc m a sz al = Some (Inl (InvalidArgument msg), m', a'))
      \<longleftrightarrow> sz = 0 \<or> al = 0 \<or> \<not> (\<exists>k<64. al = 2 ^ k))
   \<and> ((\<exists>msg m' a'. Free m a p = Some (Inl (RuntimeError msg), m', a'))
      \<longleftrightarrow> p = 0 \<or>
          hdr_magic m (p - sizeof_MemBlockHeader - ucast (read8 m (p - 1)) - 1) \<noteq> kMemMagicNum)
   \<and> (\<forall>e m' a'. Alloc m a sz al = Some (Inl (InvalidArgument e), m', a') \<longrightarrow> m' = m \<and> a' = a)
   \<and> (\<forall>e m' a'. Free m a p = Some (Inl (RuntimeError e), m', a') \<longrightarrow> m' = m \<and> a' = a)"
proof (intro conjI)
  show "(\<exists>msg m' a'. Alloc m a sz al = Some (Inl (InvalidArgument msg), m', a'))
      \<longleftrightarrow> sz = 0 \<or> al = 0 \<or> \<not> (\<exists>k<64. al = 2 ^ k)"
    using alloc_layout_not_InvalidArgument
    by (auto simp: Alloc_def Let_def IsPowerOfTwo_iff split: option.splits prod.splits if_splits)
       (metis fst_conv)+
  show "(\<exists>msg m' a'. Free m a p = Some (Inl (RuntimeError msg), m', a'))
      \<longleftrightarrow> p = 0 \<or>
          hdr_magic m (p - sizeof_MemBlockHeader - ucast (read8 m (p - 1)) - 1) \<noteq> kMemMagicNum"
    by (auto simp: Free_def Let_def split: option.splits prod.splits if_splits)
  show "\<forall>e m' a'. Alloc m a sz al = Some (Inl (InvalidArgument e), m', a') \<longrightarrow> m' = m \<and> a' = a"
    using alloc_layout_not_InvalidArgument
    by (auto simp: Alloc_def Let_def split: option.splits prod.splits if_splits) (metis fst_conv)+
  show "\<forall>e m' a'. Free m a p = Some (Inl (RuntimeError e), m', a') \<longrightarrow> m' = m \<and> a' = a"
    by (auto simp: Free_def Let_def split: option.splits prod.splits if_splits)
qed

theorem errors_raised_exactly_witness:
  "(\<exists>msg. Alloc test_mem test_alloc 1024 7 = Some (Inl (InvalidArgument msg), test_mem, test_alloc))
   \<and> (\<exists>msg. Free test_mem test_alloc 0 = Some (Inl (RuntimeError msg), test_mem, test_alloc))"
proof -
  have "\<not> (\<exists>k<64. (7 :: size_t) = 2 ^ k)"
    using IsPowerOfTwo_iff [of 7] by (simp add: IsPowerOfTwo_def)
  then show ?thesis
    using errors_raised_exactly [of test_mem test_alloc 1024 7 0] by blast
qed

section \<open>MergeFreeBlocks on an empty list\<close>

text \<open>
  \<open>InsertFreeMemBlock\<close> never leaves \<^verbatim>\<open>head_\<close> null, and \<open>Free\<close> calls \<open>MergeFreeBlocks\<close>
  only after it: the copy of \<open>MergeFreeBlocks\<close> without the test of \<^verbatim>\<open>head_\<close> computes, at
  its one call site, what the function with the test computes. Called on an empty list it
  would not return.
\<close>

lemma insert_walk_head_nonnull:
  assumes "insert_walk m dn block be prev cur = Some y"
  shows "block \<noteq> 0 \<Longrightarrow> (prev = None \<longrightarrow> dn = cur) \<Longrightarrow> (prev \<noteq> None \<longrightarrow> dn \<noteq> 0) \<Longrightarrow>
         (case y of (m', dn', prev', ins) \<Rightarrow>
           (ins \<longrightarrow> dn' \<noteq> 0) \<and> (\<not> ins \<longrightarrow> prev' \<noteq> None \<longrightarrow> dn' \<noteq> 0))"
  using assms
proof (induction m dn block be prev cur y rule: insert_walk.raw_induct)
  case (1 walk m dummy_next block block_end_addr prev cur y)
  show ?case
  proof (cases "cur = 0")
    case True
    with "1.hyps" have "y = (m, dummy_next, prev, False)" by simp
    then show ?thesis using "1.prems" by simp
  next
    case nz: False
    show ?thesis
    proof (cases "block_end_addr \<le> cur")
      case True
      with nz "1.hyps"
      have "y = (fst (set_prev_next (set_blk_next m block cur) dummy_next prev block),
                 snd (set_prev_next (set_blk_next m block cur) dummy_next prev block),
                 prev, True)"
        by (simp add: Let_def split: prod.splits)
      then show ?thesis using "1.prems" by (cases prev) (simp_all add: set_prev_next_def)
    next
      case False
      with nz "1.hyps"
      have "walk m dummy_next block block_end_addr (Some cur) (blk_next m cur) = Some y"
        by simp
      moreover have "insert_walk m dummy_next block block_end_addr prev cur =
          insert_walk m dummy_next block block_end_addr (Some cur) (blk_next m cur)"
        using nz False by (subst insert_walk.simps) simp
      ultimately show ?thesis using "1.IH" nz "1.prems" by (cases prev) simp_all
    qed
  qed
qed (fact assms)

lemma InsertFreeMemBlock_head_nonnull:
  assumes "InsertFreeMemBlock m a block = Some (m', a')" and "block \<noteq> 0"
  shows "head a' \<noteq> 0"
proof -
  from assms(1) obtain m1 dn prev ins where
    w: "insert_walk m (head a) block (block + blk_size m block) None (head a) = Some (m1, dn, prev, ins)"
    by (auto simp: InsertFreeMemBlock_def Let_def split: option.splits)
  from insert_walk_head_nonnull [OF w assms(2)]
  have i: "(ins \<longrightarrow> dn \<noteq> 0) \<and> (\<not> ins \<longrightarrow> prev \<noteq> None \<longrightarrow> dn \<noteq> 0)" by simp
  show ?thesis
  proof (cases ins)
    case True
    with assms(1) w i show ?thesis by (auto simp: InsertFreeMemBlock_def Let_def)
  next
    case False
    with assms(1) w i assms(2) show ?thesis
      by (cases prev) (auto simp: InsertFreeMemBlock_def Let_def set_prev_next_def)
  qed
qed

lemma MergeFreeBlocks_unguarded_nonempty:
  "head a \<noteq> 0 \<Longrightarrow> MergeFreeBlocks_unguarded m a = map_option Inr (MergeFreeBlocks m a)"
  by (simp add: MergeFreeBlocks_unguarded_def MergeFreeBlocks_def)

lemma MergeFreeBlocks_unguarded_empty:
  "head a = 0 \<Longrightarrow> MergeFreeBlocks_unguarded m a = Some (Inl Segfault)"
  by (simp add: MergeFreeBlocks_unguarded_def)

lemma MergeFreeBlocks_after_insert:
  assumes "InsertFreeMemBlock m a block = Some (m', a')" and "block \<noteq> 0"
  shows "MergeFreeBlocks_unguarded m' a' = map_option Inr (MergeFreeBlocks m' a')"
  using InsertFreeMemBlock_head_nonnull [OF assms] by (rule MergeFreeBlocks_unguarded_nonempty)

text \<open>
  C9. \<open>MergeFreeBlocks\<close> on an empty free list (\<^verbatim>\<open>head_\<close> null) returns at once and leaves
  the memory as it was. (The function has no access to anything else: the allocator
  object is not written.)
\<close>

theorem MergeFreeBlocks_empty_noop: "head a = 0 \<Longrightarrow> MergeFreeBlocks m a = Some m"
  by (simp add: MergeFreeBlocks_def)

theorem MergeFreeBlocks_empty_noop_witness:
  "MergeFreeBlocks zero_mem \<lparr>region_size = 0, mmap_start = 0, head = 0\<rparr> = Some zero_mem"
  using MergeFreeBlocks_empty_noop [of "\<lparr>region_size = 0, mmap_start = 0, head = 0\<rparr>" zero_mem]
  by simp

section \<open>Construction\<close>

lemma least_multiple_step:
  fixes n p r :: nat
  assumes "p dvd r" "n \<le> r" "n mod p \<noteq> 0"
  shows "n div p * p + p \<le> r"
proof -
  from assms(1) obtain q where q: "r = p * q" by (auto elim: dvdE)
  have p0: "0 < p" using assms by (cases "p = 0") auto
  have "n = n div p * p + n mod p" by simp
  then have "n div p * p < n" using assms(3) by linarith
  then have "n div p * p < p * q" using assms(2) q by linarith
  then have "n div p < q" by (simp add: mult.commute)
  then have "n div p + 1 \<le> q" by simp
  then have "(n div p + 1) * p \<le> q * p" by (rule mult_le_mono1)
  then show ?thesis using q by (simp add: mult.commute)
qed

text \<open>
  C8. After a construction that returns, \<open>RegionSize\<close> is the smallest multiple of the page
  size that is at least \<open>N\<close>, and is \<open>N\<close> itself when \<open>N\<close> is such a multiple. The page size
  is positive, and the rounded size is a \<^verbatim>\<open>std::size_t\<close>: some multiple of the page size
  that is at least \<open>N\<close> lies below \<open>2 ^ 64\<close>.
\<close>

theorem RegionSize_page_rounding:
  assumes ctor: "Malloc_ctor N kPageSize mmap_ret e m maps = (Inr a, m', maps')"
    and page: "kPageSize \<noteq> 0"
    and fits: "\<exists>r. unat kPageSize dvd r \<and> unat N \<le> r \<and> r < 2 ^ 64"
  shows "unat kPageSize dvd unat (RegionSize a)
       \<and> unat N \<le> unat (RegionSize a)
       \<and> (\<forall>r. unat kPageSize dvd r \<and> unat N \<le> r \<longrightarrow> unat (RegionSize a) \<le> r)
       \<and> (unat kPageSize dvd unat N \<longrightarrow> RegionSize a = N)"
proof -
  let ?n = "unat N" and ?p = "unat kPageSize"
  have rs: "RegionSize a =
      (if N mod kPageSize \<noteq> 0 then (N div kPageSize) * kPageSize + kPageSize else N)"
    using ctor by (auto simp: Malloc_ctor_def Let_def RegionSize_def split: if_splits)
  have modz: "N mod kPageSize = 0 \<longleftrightarrow> ?n mod ?p = 0"
    by (metis unat_eq_zero unat_mod)
  have p0: "0 < ?p" using page by (simp add: unat_gt_0)
  show ?thesis
  proof (cases "N mod kPageSize = 0")
    case True
    then have "RegionSize a = N" using rs by simp
    moreover have "?p dvd ?n" using True modz by (simp add: dvd_eq_mod_eq_0)
    ultimately show ?thesis by simp
  next
    case False
    then have nz: "?n mod ?p \<noteq> 0" using modz by simp
    from fits obtain r where r: "?p dvd r" "?n \<le> r" "r < 2 ^ 64" by blast
    have le: "?n div ?p * ?p + ?p \<le> r" using r(1,2) nz by (rule least_multiple_step)
    have u1: "unat (N div kPageSize * kPageSize) = ?n div ?p * ?p"
    proof -
      have "unat (N div kPageSize) * ?p < 2 ^ LENGTH(64)"
        using le r(3) by (simp add: unat_div)
      then show ?thesis by (simp add: unat_mult_lem [THEN iffD1] unat_div)
    qed
    have u: "unat (N div kPageSize * kPageSize + kPageSize) = ?n div ?p * ?p + ?p"
    proof -
      have "unat (N div kPageSize * kPageSize) + ?p < 2 ^ LENGTH(64)"
        using le r(3) u1 by simp
      then show ?thesis using u1 by (simp add: unat_add_lem [THEN iffD1])
    qed
    have eq: "unat (RegionSize a) = ?n div ?p * ?p + ?p" using rs False u by simp
    have "?n = ?n div ?p * ?p + ?n mod ?p" by simp
    moreover have "?n mod ?p < ?p" using p0 by simp
    ultimately have ge: "?n \<le> ?n div ?p * ?p + ?p" by linarith
    have nd: "\<not> ?p dvd ?n" using nz by (simp add: dvd_eq_mod_eq_0)
    have "\<forall>r. ?p dvd r \<and> ?n \<le> r \<longrightarrow> ?n div ?p * ?p + ?p \<le> r"
      using nz by (auto intro: least_multiple_step)
    then show ?thesis using eq ge nd by simp
  qed
qed

theorem RegionSize_page_rounding_witness:
  "unat (4096 :: size_t) dvd
     unat (RegionSize \<lparr>region_size = 16384, mmap_start = 0x10000, head = 0x10000\<rparr>)
   \<and> unat (12289 :: size_t)
       \<le> unat (RegionSize \<lparr>region_size = 16384, mmap_start = 0x10000, head = 0x10000\<rparr>)
   \<and> unat (RegionSize \<lparr>region_size = 16384, mmap_start = 0x10000, head = 0x10000\<rparr>) \<le> 16384
   \<and> RegionSize test_alloc = 4096"
proof -
  have c: "Malloc_ctor 12289 4096 0x10000 [] zero_mem [] =
     (Inr \<lparr>region_size = 16384, mmap_start = 0x10000, head = 0x10000\<rparr>,
      set_blk_next (set_blk_size zero_mem 0x10000 (16384 - sizeof_MemBlock)) 0x10000 0,
      [(0x10000, 16384)])"
    by (simp add: Malloc_ctor_def Let_def mmap_os_def MAP_FAILED_def)
  have f: "\<exists>r. unat (4096 :: size_t) dvd r \<and> unat (12289 :: size_t) \<le> r \<and> r < 2 ^ 64"
    by (rule exI [of _ 16384]) simp
  have f2: "\<exists>r. unat (4096 :: size_t) dvd r \<and> unat (4096 :: size_t) \<le> r \<and> r < 2 ^ 64"
    by (rule exI [of _ 4096]) simp
  have d: "unat (4096 :: size_t) dvd 16384 \<and> unat (12289 :: size_t) \<le> 16384"
    by simp
  have d2: "unat (4096 :: size_t) dvd unat (4096 :: size_t)" by simp
  have n: "(4096 :: size_t) \<noteq> 0" by simp
  from RegionSize_page_rounding [OF c n f] d
  have "unat (4096 :: size_t) dvd
     unat (RegionSize \<lparr>region_size = 16384, mmap_start = 0x10000, head = 0x10000\<rparr>)
   \<and> unat (12289 :: size_t)
       \<le> unat (RegionSize \<lparr>region_size = 16384, mmap_start = 0x10000, head = 0x10000\<rparr>)
   \<and> unat (RegionSize \<lparr>region_size = 16384, mmap_start = 0x10000, head = 0x10000\<rparr>) \<le> 16384"
    by blast
  moreover from RegionSize_page_rounding [OF test_ctor_full n f2] d2
  have "RegionSize test_alloc = 4096" by blast
  ultimately show ?thesis by blast
qed

text \<open>
  C7. When \<^verbatim>\<open>mmap\<close> refuses the mapping it returns \<^verbatim>\<open>MAP_FAILED\<close>, which is not null, so the
  test \<^verbatim>\<open>!head_\<close> does not see the failure: the constructor throws nothing and keeps
  \<^verbatim>\<open>MAP_FAILED\<close> as \<^verbatim>\<open>head_\<close> and \<^verbatim>\<open>mmap_start_\<close> (its next statements store the first free
  node through that pointer). No mapping was made.
\<close>

theorem ctor_does_not_throw_on_MAP_FAILED:
  "fst (Malloc_ctor N kPageSize MAP_FAILED e m maps) =
     Inr \<lparr>region_size =
            (if N mod kPageSize \<noteq> 0 then (N div kPageSize) * kPageSize + kPageSize else N),
          mmap_start = MAP_FAILED, head = MAP_FAILED\<rparr>
   \<and> snd (snd (Malloc_ctor N kPageSize MAP_FAILED e m maps)) = maps"
  by (simp add: Malloc_ctor_def Let_def mmap_os_def MAP_FAILED_def)

theorem ctor_does_not_throw_on_MAP_FAILED_witness:
  "fst (Malloc_ctor 4096 4096 MAP_FAILED ''Cannot allocate memory'' zero_mem []) =
     Inr \<lparr>region_size = 4096, mmap_start = MAP_FAILED, head = MAP_FAILED\<rparr>"
  using ctor_does_not_throw_on_MAP_FAILED [of 4096 4096 "''Cannot allocate memory''" zero_mem "[]"]
  by simp

section \<open>A request the one-byte count cannot record\<close>

text \<open>
  \<^verbatim>\<open>Alloc(100, 512)\<close> on the test allocator, followed by \<^verbatim>\<open>Free\<close> of the pointer it returns.
\<close>

lemma alloc_512_eval:
  "(case Alloc test_mem test_alloc 100 512 of
      Some (Inr p, m', a') \<Rightarrow>
        p = 0x10200
        \<and> read8 m' 0x101FF = 239
        \<and> hdr_magic m' 0x10000 = kMemMagicNum
        \<and> hdr_size m' 0x10000 = 613
        \<and> head a' = 0x10275
        \<and> (case Free m' a' p of
             Some (r, m'', a'') \<Rightarrow>
               r = Inl (RuntimeError ''invalid mem block magic number'')
               \<and> head a'' = 0x10275 \<and> blk_size m'' 0x10275 = 3451
               \<and> blk_next m'' 0x10275 = 0
           | None \<Rightarrow> False)
    | _ \<Rightarrow> False)"
  by code_simp

lemma alloc_512_result:
  obtains m' a' m'' a'' where
    "Alloc test_mem test_alloc 100 512 = Some (Inr 0x10200, m', a')"
    "read8 m' 0x101FF = 239" "hdr_magic m' 0x10000 = kMemMagicNum"
    "hdr_size m' 0x10000 = 613" "head a' = 0x10275"
    "Free m' a' 0x10200 = Some (Inl (RuntimeError ''invalid mem block magic number''), m'', a'')"
    "head a'' = 0x10275" "blk_size m'' 0x10275 = 3451" "blk_next m'' 0x10275 = 0"
proof -
  obtain r m' a' where a: "Alloc test_mem test_alloc 100 512 = Some (r, m', a')"
    using alloc_512_eval by (cases "Alloc test_mem test_alloc 100 512") auto
  with alloc_512_eval obtain p where r: "r = Inr p" by (cases r) auto
  from alloc_512_eval a r have p: "p = 0x10200" by simp
  from alloc_512_eval a r p obtain r2 m'' a'' where f: "Free m' a' 0x10200 = Some (r2, m'', a'')"
    by (cases "Free m' a' 0x10200") auto
  show thesis
    using alloc_512_eval a r p f that [of m' a' m'' a''] by simp
qed

text \<open>
  C2. \<^verbatim>\<open>Alloc(100, 512)\<close> is accepted and returns 0x10200. The payload pointer before
  alignment was 0x10011, so 495 bytes were skipped; the byte before the returned pointer
  holds 239 (495 modulo 256), and the header address \<open>Free\<close> computes from it is 0x10100,
  not the header at 0x10000 (where the magic number is).
\<close>

theorem shim_byte_truncated_at_512:
  "\<exists>m' a'. Alloc test_mem test_alloc 100 512 = Some (Inr 0x10200, m', a')
     \<and> hdr_magic m' 0x10000 = kMemMagicNum
     \<and> unat ((0x10200 :: addr) - (0x10000 + sizeof_MemBlockHeader + 1)) = 495
     \<and> unat (read8 m' (0x10200 - 1)) = 239
     \<and> 0x10200 - sizeof_MemBlockHeader - ucast (read8 m' (0x10200 - 1)) - 1 = (0x10100 :: addr)"
proof -
  obtain m' a' where a: "Alloc test_mem test_alloc 100 512 = Some (Inr 0x10200, m', a')"
    "read8 m' 0x101FF = 239" "hdr_magic m' 0x10000 = kMemMagicNum"
    by (rule alloc_512_result)
  then show ?thesis by (simp add: sizeof_MemBlockHeader_def)
qed

theorem shim_byte_truncated_at_512_witness:
  "\<exists>p m' a'. Alloc test_mem test_alloc 100 512 = Some (Inr p, m', a')
     \<and> unat (read8 m' (p - 1)) < unat (p - (0x10000 + sizeof_MemBlockHeader + 1))"
proof -
  from shim_byte_truncated_at_512 obtain m' a' where
    "Alloc test_mem test_alloc 100 512 = Some (Inr 0x10200, m', a')"
    "unat ((0x10200 :: addr) - (0x10000 + sizeof_MemBlockHeader + 1)) = 495"
    "unat (read8 m' (0x10200 - 1)) = 239"
    by blast
  then show ?thesis by (intro exI [of _ "0x10200"] exI [of _ m'] exI [of _ a']) simp
qed

text \<open>
  C1. One successful \<^verbatim>\<open>Alloc(100, 512)\<close> on the fresh allocator, then \<open>Free\<close> of the pointer it
  returned: \<open>Free\<close> throws, and the free list stays the single node at \<open>base + 629\<close> of
  3451 bytes instead of returning to one node at \<open>base\<close> of \<open>4096 - 16\<close> bytes.
\<close>

theorem roundtrip_fails_at_512:
  "\<exists>m' a' m'' a''.
     Alloc test_mem test_alloc 100 512 = Some (Inr 0x10200, m', a')
     \<and> Free m' a' 0x10200 = Some (Inl (RuntimeError ''invalid mem block magic number''), m'', a'')
     \<and> head a'' = 0x10000 + 629 \<and> blk_size m'' (head a'') = 3451 \<and> blk_next m'' (head a'') = 0"
proof -
  obtain m' a' m'' a'' where
    "Alloc test_mem test_alloc 100 512 = Some (Inr 0x10200, m', a')"
    "Free m' a' 0x10200 = Some (Inl (RuntimeError ''invalid mem block magic number''), m'', a'')"
    "head a'' = 0x10275" "blk_size m'' 0x10275 = 3451" "blk_next m'' 0x10275 = 0"
    by (rule alloc_512_result)
  then show ?thesis by simp
qed

theorem roundtrip_fails_at_512_witness:
  "\<exists>p m' a' r m'' a''.
     Alloc test_mem test_alloc 100 512 = Some (Inr p, m', a')
     \<and> Free m' a' p = Some (r, m'', a'')
     \<and> head a'' \<noteq> 0x10000"
proof -
  from roundtrip_fails_at_512 obtain m' a' m'' a'' where
    "Alloc test_mem test_alloc 100 512 = Some (Inr 0x10200, m', a')"
    "Free m' a' 0x10200 = Some (Inl (RuntimeError ''invalid mem block magic number''), m'', a'')"
    "head a'' = 0x10000 + 629"
    by blast
  then show ?thesis by (intro exI [of _ "0x10200"] exI [of _ m'] exI [of _ a']) simp
qed

section \<open>Move assignment\<close>

lemma Alloc_keeps_region:
  "Alloc m a sz al = Some (r, m', a') \<Longrightarrow> mmap_start a' = mmap_start a \<and> region_size a' = region_size a"
  by (auto simp: Alloc_def Let_def alloc_split_def split: if_splits option.splits prod.splits)

lemma Free_keeps_region:
  "Free m a p = Some (r, m', a') \<Longrightarrow> mmap_start a' = mmap_start a \<and> region_size a' = region_size a"
  by (auto simp: Free_def Let_def InsertFreeMemBlock_def split: if_splits option.splits prod.splits)

lemma leaked_upd:
  "leaked mp objs maps \<Longrightarrow> mmap_start a' = mmap_start (objs i) \<Longrightarrow> leaked mp (objs(i := a')) maps"
  by (auto simp: leaked_def)

lemma move_assign_mmap_start:
  "mmap_start (move_assign objs this rhs i) = 0
   \<or> (\<exists>j. mmap_start (move_assign objs this rhs i) = mmap_start (objs j))"
  unfolding move_assign_def Let_def by (cases "this = rhs") auto

lemma step_leaked:
  assumes "leaked mp objs maps" "fst mp \<noteq> 0" "step x (m, objs, maps) = Some (m', objs', maps')"
  shows "leaked mp objs' maps'"
proof (cases x)
  case (Op_Alloc i sz al)
  with assms(3) obtain r a' where "Alloc m (objs i) sz al = Some (r, m', a')" "objs' = objs(i := a')" "maps' = maps"
    by (auto split: option.splits)
  then show ?thesis using assms(1) Alloc_keeps_region leaked_upd by metis
next
  case (Op_Free i q)
  with assms(3) obtain r a' where "Free m (objs i) q = Some (r, m', a')" "objs' = objs(i := a')" "maps' = maps"
    by (auto split: option.splits)
  then show ?thesis using assms(1) Free_keeps_region leaked_upd by metis
next
  case (Op_MoveAssign this rhs)
  with assms(3) have o: "objs' = move_assign objs this rhs" "maps' = maps" by auto
  have "mmap_start (objs' i) \<noteq> fst mp" for i
    using move_assign_mmap_start [of objs this rhs i] assms(1,2) o
    by (auto simp: leaked_def)
  then show ?thesis using assms(1) o by (simp add: leaked_def)
next
  case (Op_MoveCtor new rhs)
  then show ?thesis using assms
    by (auto simp: leaked_def move_ctor_def Let_def split: if_splits)
next
  case (Op_Destroy i)
  with assms(3) have o: "objs' = objs" "maps' = fst (Malloc_dtor (objs i) maps)" by auto
  have "mp \<noteq> (mmap_start (objs i), region_size (objs i))"
    using assms(1) by (auto simp: leaked_def)
  then have "mp \<in> set (remove1 (mmap_start (objs i), region_size (objs i)) maps)"
    using assms(1) by (simp add: in_set_remove1 leaked_def)
  then have "mp \<in> set maps'"
    using assms(1) o by (auto simp: leaked_def Malloc_dtor_def munmap_os_def Let_def)
  then show ?thesis using assms(1) o by (simp add: leaked_def)
qed

lemma run_leaked:
  "leaked mp objs maps \<Longrightarrow> fst mp \<noteq> 0 \<Longrightarrow> run xs (m, objs, maps) = Some (m', objs', maps')
   \<Longrightarrow> leaked mp objs' maps'"
proof (induction xs arbitrary: m objs maps)
  case Nil
  then show ?case by simp
next
  case (Cons x xs)
  from Cons.prems(3) obtain m1 objs1 maps1 where
    s: "step x (m, objs, maps) = Some (m1, objs1, maps1)"
    and r: "run xs (m1, objs1, maps1) = Some (m', objs', maps')"
    by (auto split: option.splits)
  from step_leaked [OF Cons.prems(1,2) s] have "leaked mp objs1 maps1" .
  from Cons.IH [OF this Cons.prems(2) r] show ?case .
qed

text \<open>
  C10. Move assignment onto an object \<open>this\<close> that holds a region (a live mapping that no
  other object records) from a different object \<open>rhs\<close>: the members of \<open>this\<close> become those
  of \<open>rhs\<close>, \<open>rhs\<close> is left with size 0 and null pointers, the destructor of \<open>this\<close> unmaps
  what the destructor of \<open>rhs\<close> would have unmapped, that of \<open>rhs\<close> unmaps nothing, and after
  any sequence of operations on any objects the mapping \<open>this\<close> held before is still mapped.
\<close>

theorem move_assign_leaks_previous_region:
  assumes distinct: "this \<noteq> rhs"
    and held: "(mmap_start (objs this), region_size (objs this)) \<in> set maps"
              "mmap_start (objs this) \<noteq> 0"
    and sole: "\<forall>i. i \<noteq> this \<longrightarrow> mmap_start (objs i) \<noteq> mmap_start (objs this)"
  shows "move_assign objs this rhs this = objs rhs
       \<and> move_assign objs this rhs rhs = \<lparr>region_size = 0, mmap_start = 0, head = 0\<rparr>
       \<and> Malloc_dtor (move_assign objs this rhs this) maps = Malloc_dtor (objs rhs) maps
       \<and> Malloc_dtor (move_assign objs this rhs rhs) maps = (maps, False)
       \<and> (\<forall>ops m m' objs' maps'.
             run ops (m, move_assign objs this rhs, maps) = Some (m', objs', maps')
             \<longrightarrow> (mmap_start (objs this), region_size (objs this)) \<in> set maps')"
proof -
  let ?o = "move_assign objs this rhs"
  let ?mp = "(mmap_start (objs this), region_size (objs this))"
  have t: "?o this = objs rhs" and r: "?o rhs = \<lparr>region_size = 0, mmap_start = 0, head = 0\<rparr>"
    using distinct by (simp_all add: move_assign_def Let_def)
  have other: "?o i = objs i" if "i \<noteq> this" "i \<noteq> rhs" for i
    using that distinct by (simp add: move_assign_def Let_def)
  have "mmap_start (?o i) \<noteq> mmap_start (objs this)" for i
  proof (cases "i = this")
    case True
    with t sole distinct show ?thesis by auto
  next
    case False
    then show ?thesis using r held(2) other [of i] sole by (cases "i = rhs") auto
  qed
  then have l: "leaked ?mp ?o maps"
    using held(1) by (simp add: leaked_def)
  have "\<forall>ops m m' objs' maps'.
        run ops (m, ?o, maps) = Some (m', objs', maps') \<longrightarrow> ?mp \<in> set maps'"
    using run_leaked [OF l] held(2) by (auto simp: leaked_def)
  then show ?thesis using t r by (simp add: Malloc_dtor_def)
qed

theorem move_assign_leaks_previous_region_witness:
  "move_assign two_objs 0 1 0 = two_objs 1
   \<and> (\<exists>m' objs' maps'.
        run [Op_Destroy 0, Op_Destroy 1] (zero_mem, move_assign two_objs 0 1, two_maps)
          = Some (m', objs', maps')
        \<and> (0x10000, 4096) \<in> set maps')"
proof -
  have h: "(mmap_start (two_objs 0), region_size (two_objs 0)) \<in> set two_maps"
    "mmap_start (two_objs 0) \<noteq> 0"
    "\<forall>i. i \<noteq> 0 \<longrightarrow> mmap_start (two_objs i) \<noteq> mmap_start (two_objs 0)"
    by (simp_all add: two_objs_def two_maps_def)
  have d: "(0::nat) \<noteq> 1" by simp
  have v: "(mmap_start (two_objs 0), region_size (two_objs 0)) = (0x10000, 4096)"
    by (simp add: two_objs_def)
  obtain m' objs' maps' where
    e: "run [Op_Destroy 0, Op_Destroy 1] (zero_mem, move_assign two_objs 0 1, two_maps)
          = Some (m', objs', maps')"
    by (cases "run [Op_Destroy 0, Op_Destroy 1] (zero_mem, move_assign two_objs 0 1, two_maps)")
       (auto split: option.splits)
  from move_assign_leaks_previous_region [OF d h]
  have t: "move_assign two_objs 0 1 0 = two_objs 1"
    and l: "\<forall>ops m m' objs' maps'.
             run ops (m, move_assign two_objs 0 1, two_maps) = Some (m', objs', maps')
             \<longrightarrow> (mmap_start (two_objs 0), region_size (two_objs 0)) \<in> set maps'"
    by blast+
  from l e have "(mmap_start (two_objs 0), region_size (two_objs 0)) \<in> set maps'" by blast
  then have "(0x10000, 4096) \<in> set maps'" by (simp only: v)
  with t e show ?thesis by blast
qed

section \<open>First fit\<close>

text \<open>
  First fit within the contract of the call. With
  \<^verbatim>\<open>req_space = size + sizeof(MemBlock) + alignment + 1\<close> (in \<^verbatim>\<open>std::size_t\<close>
  arithmetic), for valid arguments and a free list \<open>xs\<close>: \<open>Alloc\<close> returns null exactly when
  no node of \<open>xs\<close> has \<open>req_space\<close> bytes, and then it throws nothing and changes nothing.
  Otherwise, on a list that satisfies the invariant and a request whose \<open>req_space\<close> does not
  overflow, it returns a pointer into the first node \<open>c\<close> of at least \<open>req_space\<close> bytes, the
  header is laid down at \<open>c\<close>, and the free list becomes what first-fit with splitting makes
  of \<open>xs\<close>: \<open>c\<close> replaced by a residual of \<open>size - req_space\<close> bytes at \<open>c + req_space\<close>, or
  removed when it has exactly \<open>req_space\<close> bytes.
\<close>

lemma Alloc_first_fit_in_contract:
  assumes sz: "sz \<noteq> 0" and al: "IsPowerOfTwo al" and fl: "flist m (head a) xs"
  shows "req_space sz al = sz + sizeof_MemBlock + al + 1
    \<and> ((\<exists>m' a'. Alloc m a sz al = Some (Inr 0, m', a')) \<longleftrightarrow> first_fit (req_space sz al) xs = None)
    \<and> (first_fit (req_space sz al) xs = None \<longrightarrow> Alloc m a sz al = Some (Inr 0, m, a))
    \<and> (\<forall>c ys. first_fit (req_space sz al) xs = Some (c, ys) \<and> spaced xs
                \<and> unat sz + unat al + 17 < 2 ^ 64 \<longrightarrow>
          (\<exists>p m' a'. Alloc m a sz al = Some (Inr p, m', a')
             \<and> flist m' (head a') ys \<and> spaced ys
             \<and> hdr_magic m' c = kMemMagicNum
             \<and> hdr_size m' c = req_space sz al - sizeof_MemBlockHeader
             \<and> unat c + 17 \<le> unat p
             \<and> unat p + unat sz \<le> unat c + unat (req_space sz al)))"
proof -
  from al obtain k where k: "k < 64" "al = 2 ^ k" by (auto simp: IsPowerOfTwo_iff)
  have ual: "unat al = 2 ^ k" using k by (simp add: unat_pow2_64)
  let ?req = "req_space sz al"
  have none: "Alloc m a sz al = Some (Inr 0, m, a)" if "first_fit ?req xs = None"
    using Alloc_no_fit [OF sz k(1), of m a xs] fl that k(2) by (simp add: first_fit_None)
  have some: "\<not> (\<exists>m' a'. Alloc m a sz al = Some (Inr 0, m', a'))"
    if "first_fit ?req xs \<noteq> None"
  proof -
    from that obtain c ys where "first_fit ?req xs = Some (c, ys)" by auto
    from first_fit_Some [OF this] obtain pre s post where
      d: "xs = pre @ (c, s) # post" "\<forall>n\<in>set pre. snd n < ?req" "?req \<le> s"
      by blast
    from Alloc_fit_not_null [OF sz k(1), of m a pre c s post] fl d k(2)
    show ?thesis by auto
  qed
  have fit: "\<exists>p m' a'. Alloc m a sz al = Some (Inr p, m', a')
             \<and> flist m' (head a') ys \<and> spaced ys
             \<and> hdr_magic m' c = kMemMagicNum
             \<and> hdr_size m' c = ?req - sizeof_MemBlockHeader
             \<and> unat c + 17 \<le> unat p
             \<and> unat p + unat sz \<le> unat c + unat ?req"
    if ff: "first_fit ?req xs = Some (c, ys)" and sp: "spaced xs"
      and nov: "unat sz + unat al + 17 < 2 ^ 64" for c ys
  proof -
    from first_fit_Some [OF ff] obtain pre s post where
      d: "xs = pre @ (c, s) # post" "\<forall>n\<in>set pre. snd n < ?req" "?req \<le> s"
        "ys = pre @ (if ?req < s then [(c + ?req, s - ?req)] else []) @ post"
      by blast
    have nov': "unat sz + 2 ^ k + 17 < 2 ^ 64" using nov ual by simp
    have ureq: "unat ?req = unat sz + 2 ^ k + 17"
      using unat_req_space [OF k(1) nov'] k(2) by simp
    from Alloc_ok [OF sz k(1) nov', of m a pre c s post] fl sp d k(2)
    obtain p m' a' where
      "Alloc m a sz al = Some (Inr p, m', a')" "flist m' (head a') ys" "spaced ys"
      "hdr_magic m' c = kMemMagicNum" "hdr_size m' c = ?req - sizeof_MemBlockHeader"
      "unat c + 17 \<le> unat p" "unat p < unat c + 17 + 2 ^ k"
      by auto
    then show ?thesis using ureq by (intro exI [of _ p] exI [of _ m'] exI [of _ a']) simp
  qed
  have iff: "(\<exists>m' a'. Alloc m a sz al = Some (Inr 0, m', a')) \<longleftrightarrow> first_fit ?req xs = None"
    using none some by blast
  have formula: "?req = sz + sizeof_MemBlock + al + 1" by (simp add: req_space_def)
  show ?thesis
  proof (intro conjI allI impI)
    show "?req = sz + sizeof_MemBlock + al + 1" by (rule formula)
    show "(\<exists>m' a'. Alloc m a sz al = Some (Inr 0, m', a')) \<longleftrightarrow> first_fit ?req xs = None"
      by (rule iff)
    show "Alloc m a sz al = Some (Inr 0, m, a)" if "first_fit ?req xs = None"
      using that by (rule none)
    show "\<exists>p m' a'. Alloc m a sz al = Some (Inr p, m', a')
             \<and> flist m' (head a') ys \<and> spaced ys
             \<and> hdr_magic m' c = kMemMagicNum
             \<and> hdr_size m' c = ?req - sizeof_MemBlockHeader
             \<and> unat c + 17 \<le> unat p
             \<and> unat p + unat sz \<le> unat c + unat ?req"
      if "first_fit ?req xs = Some (c, ys) \<and> spaced xs \<and> unat sz + unat al + 17 < 2 ^ 64"
      for c ys
      using that fit by blast
  qed
qed

lemma Alloc_first_fit_in_contract_example:
  "(\<exists>p m' a'. Alloc test_mem test_alloc 100 8 = Some (Inr p, m', a')
      \<and> flist m' (head a') [(0x10000 + 125, 4080 - 125)]
      \<and> hdr_magic m' 0x10000 = kMemMagicNum)
   \<and> Alloc test_mem test_alloc 4096 8 = Some (Inr 0, test_mem, test_alloc)"
proof -
  have ff: "first_fit (req_space 100 8) [(0x10000, 4080)] = Some (0x10000, [(0x10000 + 125, 4080 - 125)])"
    by (simp add: req_space_def sizeof_MemBlock_def)
  have nf: "first_fit (req_space 4096 8) [(0x10000, 4080)] = None"
    by (simp add: req_space_def sizeof_MemBlock_def)
  have sp: "spaced [(0x10000, 4080)]" by (simp add: spaced_def)
  have p2: "IsPowerOfTwo 8" by (simp add: IsPowerOfTwo_def)
  have nz: "(100 :: size_t) \<noteq> 0" "(4096 :: size_t) \<noteq> 0" by simp_all
  have "\<exists>p m' a'. Alloc test_mem test_alloc 100 8 = Some (Inr p, m', a')
      \<and> flist m' (head a') [(0x10000 + 125, 4080 - 125)]
      \<and> hdr_magic m' 0x10000 = kMemMagicNum"
    using Alloc_first_fit_in_contract [OF nz(1) p2 test_flist] ff sp
    by (auto simp: req_space_def sizeof_MemBlock_def sizeof_MemBlockHeader_def)
  moreover have "Alloc test_mem test_alloc 4096 8 = Some (Inr 0, test_mem, test_alloc)"
    using Alloc_first_fit_in_contract [OF nz(2) p2 test_flist] nf by blast
  ultimately show ?thesis by blast
qed

section \<open>The order of the free list\<close>

lemma Alloc_preserves_spaced:
  assumes fl: "flist m (head a) xs" and sp: "spaced xs" and nov: "unat sz + unat al + 17 < 2 ^ 64"
  shows "\<exists>r m' a' xs'. Alloc m a sz al = Some (r, m', a') \<and> flist m' (head a') xs' \<and> spaced xs'"
proof (cases "sz = 0 \<or> \<not> IsPowerOfTwo al")
  case True
  then have "\<exists>e. Alloc m a sz al = Some (Inl e, m, a)"
    by (auto simp: Alloc_def IsPowerOfTwo_def)
  then show ?thesis using fl sp by blast
next
  case False
  then have sz: "sz \<noteq> 0" and al: "IsPowerOfTwo al" by simp_all
  from al obtain k where k: "k < 64" "al = 2 ^ k" by (auto simp: IsPowerOfTwo_iff)
  have ual: "unat al = 2 ^ k" using k by (simp add: unat_pow2_64)
  have nov': "unat sz + 2 ^ k + 17 < 2 ^ 64" using nov ual by simp
  show ?thesis
  proof (cases "first_fit (req_space sz al) xs")
    case None
    then have "Alloc m a sz al = Some (Inr 0, m, a)"
      using Alloc_no_fit [OF sz k(1), of m a xs] fl k(2) by (simp add: first_fit_None)
    then show ?thesis using fl sp by blast
  next
    case (Some cy)
    obtain c ys where "cy = (c, ys)" by (cases cy)
    with Some first_fit_Some [of "req_space sz al" xs c ys] obtain pre s post where
      d: "xs = pre @ (c, s) # post" "\<forall>n\<in>set pre. snd n < req_space sz al" "req_space sz al \<le> s"
      by blast
    from Alloc_ok [OF sz k(1) nov', of m a pre c s post] fl sp d k(2)
    show ?thesis by blast
  qed
qed

lemma Free_preserves_spaced:
  fixes p :: addr and m :: mem
  defines "h \<equiv> p - sizeof_MemBlockHeader - ucast (read8 m (p - 1)) - 1"
  assumes fl: "flist m (head a) xs" and sp: "spaced xs"
    and valid: "p \<noteq> 0 \<and> hdr_magic m h = kMemMagicNum \<longrightarrow>
                  h \<noteq> 0 \<and> joinable (insert_block (h, hdr_size m h + sizeof_MemBlockHeader) xs)"
  shows "\<exists>r m' a' xs'. Free m a p = Some (r, m', a') \<and> flist m' (head a') xs' \<and> spaced xs'"
proof (cases "p \<noteq> 0 \<and> hdr_magic m h = kMemMagicNum")
  case False
  then have "\<exists>e. Free m a p = Some (Inl e, m, a)"
    by (auto simp: Free_def Let_def h_def)
  then show ?thesis using fl sp by blast
next
  case True
  with valid have h0: "h \<noteq> 0"
    and j: "joinable (insert_block (h, hdr_size m h + sizeof_MemBlockHeader) xs)"
    by simp_all
  from True have p0: "p \<noteq> 0" and mg: "hdr_magic m h = kMemMagicNum" by simp_all
  from Free_ok [OF p0 _ mg refl h0 fl j] show ?thesis by (auto simp: h_def)
qed

text \<open>
  The order of the free list within the contract of each call. Strictly ascending addresses
  and no node ending where the next one starts both follow from the invariant \<open>spaced\<close>,
  which the constructor establishes (for a mapping that lies in the address space and holds
  a node) and which \<open>Alloc\<close> and \<open>Free\<close> preserve whatever they return: \<open>Alloc\<close> for requests
  whose \<open>req_space\<close> does not overflow, \<open>Free\<close> when the block it is about to insert, if it
  gets past its two checks, overlaps no free node and is contiguous with, or at least 16
  bytes away from, each neighbour. \<open>InsertFreeMemBlock\<close> makes the list the one with the block
  spliced in before the first node that starts at or after the block's end, or appended.
\<close>

lemma free_list_order_in_contract:
  "(spaced xs \<longrightarrow> ascending xs \<and> non_contiguous xs)
   \<and> (Malloc_ctor N kPageSize mmap_ret e m0 maps = (Inr a0, m1, maps1)
        \<and> unat mmap_ret + unat (region_size a0) \<le> 2 ^ 64 \<and> 16 \<le> unat (region_size a0) \<longrightarrow>
        flist m1 (head a0) [(mmap_start a0, region_size a0 - sizeof_MemBlock)]
        \<and> spaced [(mmap_start a0, region_size a0 - sizeof_MemBlock)])
   \<and> (flist m (head a) xs \<and> spaced xs \<and> unat sz + unat al + 17 < 2 ^ 64 \<longrightarrow>
        (\<exists>r m' a' xs'. Alloc m a sz al = Some (r, m', a') \<and> flist m' (head a') xs' \<and> spaced xs'))
   \<and> (flist m (head a) xs \<and> spaced xs
        \<and> (p \<noteq> 0 \<and> hdr_magic m (p - sizeof_MemBlockHeader - ucast (read8 m (p - 1)) - 1) = kMemMagicNum \<longrightarrow>
             p - sizeof_MemBlockHeader - ucast (read8 m (p - 1)) - 1 \<noteq> 0
             \<and> joinable (insert_block
                  (p - sizeof_MemBlockHeader - ucast (read8 m (p - 1)) - 1,
                   hdr_size m (p - sizeof_MemBlockHeader - ucast (read8 m (p - 1)) - 1)
                     + sizeof_MemBlockHeader) xs)) \<longrightarrow>
        (\<exists>r m' a' xs'. Free m a p = Some (r, m', a') \<and> flist m' (head a') xs' \<and> spaced xs'))
   \<and> (flist m (head a) xs \<and> h \<noteq> 0 \<and> joinable (insert_block (h, blk_size m h) xs) \<longrightarrow>
        (\<exists>m' a'. InsertFreeMemBlock m a h = Some (m', a')
            \<and> flist m' (head a') (insert_block (h, blk_size m h) xs)))"
proof (intro conjI impI)
  show "ascending xs" if "spaced xs" using that by (rule spaced_ascending)
  show "non_contiguous xs" if "spaced xs" using that by (rule spaced_non_contiguous)
next
  assume c: "Malloc_ctor N kPageSize mmap_ret e m0 maps = (Inr a0, m1, maps1)
        \<and> unat mmap_ret + unat (region_size a0) \<le> 2 ^ 64 \<and> 16 \<le> unat (region_size a0)"
  then have c1: "Malloc_ctor N kPageSize mmap_ret e m0 maps = (Inr a0, m1, maps1)"
    and c2: "unat mmap_ret + unat (region_size a0) \<le> 2 ^ 64" and c3: "16 \<le> unat (region_size a0)"
    by simp_all
  have r: "flist m1 (head a0) [(mmap_start a0, region_size a0 - sizeof_MemBlock)]
       \<and> spaced [(mmap_start a0, region_size a0 - sizeof_MemBlock)]
       \<and> head a0 = mmap_start a0 \<and> mmap_start a0 = mmap_ret"
    using c1 c2 c3 by (rule ctor_free_list)
  from r show "flist m1 (head a0) [(mmap_start a0, region_size a0 - sizeof_MemBlock)]" by blast
  from r show "spaced [(mmap_start a0, region_size a0 - sizeof_MemBlock)]" by blast
next
  assume "flist m (head a) xs \<and> spaced xs \<and> unat sz + unat al + 17 < 2 ^ 64"
  then have "flist m (head a) xs" "spaced xs" "unat sz + unat al + 17 < 2 ^ 64" by simp_all
  then show "\<exists>r m' a' xs'. Alloc m a sz al = Some (r, m', a') \<and> flist m' (head a') xs' \<and> spaced xs'"
    by (rule Alloc_preserves_spaced)
next
  assume "flist m (head a) xs \<and> spaced xs
        \<and> (p \<noteq> 0 \<and> hdr_magic m (p - sizeof_MemBlockHeader - ucast (read8 m (p - 1)) - 1) = kMemMagicNum \<longrightarrow>
             p - sizeof_MemBlockHeader - ucast (read8 m (p - 1)) - 1 \<noteq> 0
             \<and> joinable (insert_block
                  (p - sizeof_MemBlockHeader - ucast (read8 m (p - 1)) - 1,
                   hdr_size m (p - sizeof_MemBlockHeader - ucast (read8 m (p - 1)) - 1)
                     + sizeof_MemBlockHeader) xs))"
  then have "flist m (head a) xs" "spaced xs"
    "p \<noteq> 0 \<and> hdr_magic m (p - sizeof_MemBlockHeader - ucast (read8 m (p - 1)) - 1) = kMemMagicNum \<longrightarrow>
             p - sizeof_MemBlockHeader - ucast (read8 m (p - 1)) - 1 \<noteq> 0
             \<and> joinable (insert_block
                  (p - sizeof_MemBlockHeader - ucast (read8 m (p - 1)) - 1,
                   hdr_size m (p - sizeof_MemBlockHeader - ucast (read8 m (p - 1)) - 1)
                     + sizeof_MemBlockHeader) xs)"
    by simp_all
  then show "\<exists>r m' a' xs'. Free m a p = Some (r, m', a') \<and> flist m' (head a') xs' \<and> spaced xs'"
    by (rule Free_preserves_spaced)
next
  assume "flist m (head a) xs \<and> h \<noteq> 0 \<and> joinable (insert_block (h, blk_size m h) xs)"
  then have "flist m (head a) xs" "h \<noteq> 0" "joinable (insert_block (h, blk_size m h) xs)"
    by simp_all
  then show "\<exists>m' a'. InsertFreeMemBlock m a h = Some (m', a')
            \<and> flist m' (head a') (insert_block (h, blk_size m h) xs)"
    by (rule InsertFreeMemBlock_splices)
qed

lemma free_list_order_in_contract_example:
  "(ascending [(0x10000, 125), (0x10000 + 250, 3830 :: size_t)]
      \<and> non_contiguous [(0x10000, 125), (0x10000 + 250, 3830 :: size_t)])
   \<and> (flist test_mem (head test_alloc) [(mmap_start test_alloc, region_size test_alloc - sizeof_MemBlock)]
      \<and> spaced [(mmap_start test_alloc, region_size test_alloc - sizeof_MemBlock)])
   \<and> (\<exists>r m' a' xs'. Alloc test_mem test_alloc 100 8 = Some (r, m', a')
       \<and> flist m' (head a') xs' \<and> spaced xs')
   \<and> (\<exists>r m' a' xs'. Free test_mem2 test_alloc2 0x10018 = Some (r, m', a')
       \<and> flist m' (head a') xs' \<and> spaced xs')
   \<and> (\<exists>m' a'. InsertFreeMemBlock test_mem (test_alloc\<lparr>head := 0\<rparr>) 0x10000 = Some (m', a')
       \<and> flist m' (head a') [(0x10000, 4080)])"
proof -
  have sp: "spaced [(0x10000, 4080 :: size_t)]" by (simp add: spaced_def)
  have sp2: "spaced [(0x10000, 125), (0x10000 + 250, 3830 :: size_t)]"
    by (simp add: spaced_def gap_def)
  have sp3: "spaced [(0x1007D, 3955 :: size_t)]" by (simp add: spaced_def)
  have nov: "unat (100 :: size_t) + unat (8 :: size_t) + 17 < 2 ^ 64" by simp
  have c: "unat (0x10000 :: addr) + unat (region_size test_alloc) \<le> 2 ^ 64
      \<and> 16 \<le> unat (region_size test_alloc)"
    by (simp add: test_alloc_def)
  have j: "joinable (insert_block (0x10000, 125) [(0x1007D, 3955 :: size_t)])"
    by (simp add: joinable_def near_def gap_def)
  have e: "flist test_mem (head (test_alloc\<lparr>head := 0\<rparr>)) []" by (simp add: flist_def)
  have j2: "joinable (insert_block (0x10000, blk_size test_mem 0x10000) [])"
    by (simp add: test_blk_size joinable_def)
  have "ascending [(0x10000, 125), (0x10000 + 250, 3830 :: size_t)]
      \<and> non_contiguous [(0x10000, 125), (0x10000 + 250, 3830 :: size_t)]"
    using free_list_order_in_contract [where xs = "[(0x10000, 125), (0x10000 + 250, 3830)]"] sp2
    by blast
  moreover have "flist test_mem (head test_alloc)
        [(mmap_start test_alloc, region_size test_alloc - sizeof_MemBlock)]
      \<and> spaced [(mmap_start test_alloc, region_size test_alloc - sizeof_MemBlock)]"
    using free_list_order_in_contract
      [where N = 4096 and kPageSize = 4096 and mmap_ret = "0x10000" and e = "[]"
         and ?m0.0 = zero_mem and maps = "[]" and ?a0.0 = test_alloc and ?m1.0 = test_mem
         and ?maps1.0 = "[(0x10000, 4096)]"]
      test_ctor_full c
    by blast
  moreover have "\<exists>r m' a' xs'. Alloc test_mem test_alloc 100 8 = Some (r, m', a')
       \<and> flist m' (head a') xs' \<and> spaced xs'"
    using free_list_order_in_contract
      [where xs = "[(0x10000, 4080)]" and m = test_mem and a = test_alloc and sz = 100 and al = 8]
      test_flist sp nov
    by blast
  moreover have "\<exists>r m' a' xs'. Free test_mem2 test_alloc2 0x10018 = Some (r, m', a')
       \<and> flist m' (head a') xs' \<and> spaced xs'"
    using free_list_order_in_contract
      [where xs = "[(0x1007D, 3955)]" and m = test_mem2 and a = test_alloc2 and p = "0x10018",
        THEN conjunct2, THEN conjunct2, THEN conjunct2, THEN conjunct1, unfolded test2_header]
      test2_flist sp3 j
    by simp
  moreover have "\<exists>m' a'. InsertFreeMemBlock test_mem (test_alloc\<lparr>head := 0\<rparr>) 0x10000 = Some (m', a')
       \<and> flist m' (head a') [(0x10000, 4080)]"
    using free_list_order_in_contract
      [where xs = "[]" and m = test_mem and a = "test_alloc\<lparr>head := 0\<rparr>" and h = "0x10000"]
      e j2
    by (simp add: test_blk_size)
  ultimately show ?thesis by blast
qed

section \<open>A request whose size wraps\<close>

text \<open>
  \<^verbatim>\<open>req_space\<close> is computed in \<^verbatim>\<open>std::size_t\<close> and nothing checks the sum. On the test
  allocator, \<^verbatim>\<open>Alloc(0xFFFFFFFFFFFFFFED, 8)\<close> (a size of \<open>2 ^ 64 - 19\<close>) has \<open>req_space\<close> 6.
\<close>

lemma alloc_wrap_eval:
  "(case Alloc test_mem test_alloc 0xFFFFFFFFFFFFFFED 8 of
      Some (Inr p, m', a') \<Rightarrow>
        p = 0x10018
        \<and> head a' = 0x10006
        \<and> blk_size m' 0x10006 = 0xFFFFFFFFFFF60FEA
        \<and> blk_next m' 0x10006 = 0xFFFF
        \<and> flist m' 0x10006
             [(0x10006, 0xFFFFFFFFFFF60FEA), (0xFFFF, 0xEA0000DEADBEEF00), (0xFFFFFFFFFFFFF60F, 0)]
    | _ \<Rightarrow> False)"
  by code_simp

lemma alloc_wrap_result:
  obtains m' a' where
    "Alloc test_mem test_alloc 0xFFFFFFFFFFFFFFED 8 = Some (Inr 0x10018, m', a')"
    "head a' = 0x10006" "blk_size m' 0x10006 = 0xFFFFFFFFFFF60FEA" "blk_next m' 0x10006 = 0xFFFF"
    "flist m' 0x10006
       [(0x10006, 0xFFFFFFFFFFF60FEA), (0xFFFF, 0xEA0000DEADBEEF00), (0xFFFFFFFFFFFFF60F, 0)]"
proof -
  obtain r m' a' where a: "Alloc test_mem test_alloc 0xFFFFFFFFFFFFFFED 8 = Some (r, m', a')"
    using alloc_wrap_eval by (cases "Alloc test_mem test_alloc 0xFFFFFFFFFFFFFFED 8") auto
  with alloc_wrap_eval obtain p where r: "r = Inr p" by (cases r) auto
  show thesis
    using alloc_wrap_eval a r that [of m' a'] by simp
qed

lemma flist_first_two:
  assumes "flist m p xs" and "p \<noteq> 0" and "blk_next m p \<noteq> 0"
  shows "\<exists>s s' rest. xs = (p, s) # (blk_next m p, s') # rest"
proof (cases xs)
  case Nil
  with assms show ?thesis by (simp add: flist_def)
next
  case (Cons x ys)
  with assms(1) have x: "fst x = p" and ys: "fseg m (blk_next m p) ys 0"
    by (auto simp: flist_def)
  show ?thesis
  proof (cases ys)
    case Nil
    with ys assms(3) show ?thesis by simp
  next
    case (Cons y zs)
    with ys have "fst y = blk_next m p" by auto
    with x Cons \<open>xs = x # ys\<close> show ?thesis by (cases x; cases y) auto
  qed
qed

lemma descending_link_not_ascending:
  assumes "flist m p xs" and "p \<noteq> 0" and "blk_next m p \<noteq> 0" and "blk_next m p < p"
  shows "\<not> ascending xs"
proof -
  from flist_first_two [OF assms(1-3)] obtain s s' rest where
    "xs = (p, s) # (blk_next m p, s') # rest" by blast
  then show ?thesis using assms(4) by (auto simp: ascending_def)
qed

text \<open>
  C3. \<^verbatim>\<open>Alloc(2 ^ 64 - 19, 8)\<close> on the fresh test allocator asks for more bytes than the one
  free node of 4080 bytes holds, but \<open>req_space\<close> wraps to 6, the node counts as a fit and a
  non-null pointer is returned. First fit with splitting for 6 bytes would leave the single
  node \<open>(base + 6, 4074)\<close>. The header is then laid down at \<open>base\<close> with its size field at
  \<open>base + 8\<close>, over the record of that residual: the list \<open>Alloc\<close> leaves starts at
  \<open>base + 6\<close> with size 0xFFFFFFFFFFF60FEA and next pointer 0xFFFF.
\<close>

theorem Alloc_wrapped_request_not_first_fit:
  "flist test_mem (head test_alloc) [(0x10000, 4080)]
   \<and> 4080 < unat (0xFFFFFFFFFFFFFFED :: size_t) + unat sizeof_MemBlock + unat (8 :: size_t) + 1
   \<and> req_space 0xFFFFFFFFFFFFFFED 8 = 6
   \<and> first_fit (req_space 0xFFFFFFFFFFFFFFED 8) [(0x10000, 4080)]
       = Some (0x10000, [(0x10006, 4074)])
   \<and> (\<exists>m' a'. Alloc test_mem test_alloc 0xFFFFFFFFFFFFFFED 8 = Some (Inr 0x10018, m', a')
         \<and> head a' = 0x10006
         \<and> blk_size m' 0x10006 = 0xFFFFFFFFFFF60FEA
         \<and> blk_next m' 0x10006 = 0xFFFF
         \<and> \<not> flist m' (head a') [(0x10006, 4074)])"
proof -
  have r: "req_space 0xFFFFFFFFFFFFFFED 8 = 6"
    by (simp add: req_space_def sizeof_MemBlock_def)
  have big: "4080 < unat (0xFFFFFFFFFFFFFFED :: size_t) + unat sizeof_MemBlock + unat (8 :: size_t) + 1"
    by (simp add: sizeof_MemBlock_def)
  have ff: "first_fit (req_space 0xFFFFFFFFFFFFFFED 8) [(0x10000, 4080)]
       = Some (0x10000, [(0x10006, 4074)])"
    by (simp add: r)
  obtain m' a' where a: "Alloc test_mem test_alloc 0xFFFFFFFFFFFFFFED 8 = Some (Inr 0x10018, m', a')"
    "head a' = 0x10006" "blk_size m' 0x10006 = 0xFFFFFFFFFFF60FEA" "blk_next m' 0x10006 = 0xFFFF"
    by (rule alloc_wrap_result)
  then have "\<not> flist m' (head a') [(0x10006, 4074)]" by (simp add: flist_def)
  with a have "\<exists>m' a'. Alloc test_mem test_alloc 0xFFFFFFFFFFFFFFED 8 = Some (Inr 0x10018, m', a')
         \<and> head a' = 0x10006
         \<and> blk_size m' 0x10006 = 0xFFFFFFFFFFF60FEA
         \<and> blk_next m' 0x10006 = 0xFFFF
         \<and> \<not> flist m' (head a') [(0x10006, 4074)]"
    by blast
  with test_flist big r ff show ?thesis by blast
qed

theorem Alloc_wrapped_request_not_first_fit_witness:
  "\<exists>p m' a'. Alloc test_mem test_alloc 0xFFFFFFFFFFFFFFED 8 = Some (Inr p, m', a')
     \<and> p \<noteq> 0 \<and> blk_size m' (head a') \<noteq> 4080 - 6"
proof -
  from Alloc_wrapped_request_not_first_fit obtain m' a' where
    "Alloc test_mem test_alloc 0xFFFFFFFFFFFFFFED 8 = Some (Inr 0x10018, m', a')"
    "head a' = 0x10006" "blk_size m' 0x10006 = 0xFFFFFFFFFFF60FEA"
    by blast
  then show ?thesis by (intro exI [of _ "0x10018"] exI [of _ m'] exI [of _ a']) simp
qed

text \<open>
  C4. Before that call the free list is the single node at \<open>base\<close>. After it, \<^verbatim>\<open>head_\<close> is
  \<open>base + 6\<close> and the \<^verbatim>\<open>next\<close> pointer of that node is 0xFFFF, a lower address: whatever
  nodes the memory holds from \<^verbatim>\<open>head_\<close> on, they are not in ascending order.
\<close>

theorem Alloc_wrapped_request_breaks_order:
  "flist test_mem (head test_alloc) [(0x10000, 4080)]
   \<and> ascending [(0x10000, 4080 :: size_t)]
   \<and> (\<exists>m' a'. Alloc test_mem test_alloc 0xFFFFFFFFFFFFFFED 8 = Some (Inr 0x10018, m', a')
         \<and> head a' = 0x10006
         \<and> blk_next m' (head a') = 0xFFFF
         \<and> (\<forall>xs. flist m' (head a') xs \<longrightarrow> \<not> ascending xs))"
proof -
  obtain m' a' where a: "Alloc test_mem test_alloc 0xFFFFFFFFFFFFFFED 8 = Some (Inr 0x10018, m', a')"
    "head a' = 0x10006" "blk_next m' 0x10006 = 0xFFFF"
    by (rule alloc_wrap_result)
  have "\<not> ascending xs" if "flist m' (head a') xs" for xs
    using that a(2,3) by (intro descending_link_not_ascending [of m' "head a'" xs]) simp_all
  with a have "\<exists>m' a'. Alloc test_mem test_alloc 0xFFFFFFFFFFFFFFED 8 = Some (Inr 0x10018, m', a')
         \<and> head a' = 0x10006
         \<and> blk_next m' (head a') = 0xFFFF
         \<and> (\<forall>xs. flist m' (head a') xs \<longrightarrow> \<not> ascending xs)"
    by (intro exI [of _ m'] exI [of _ a']) simp
  moreover have "ascending [(0x10000, 4080 :: size_t)]" by (simp add: ascending_def)
  ultimately show ?thesis using test_flist by blast
qed

theorem Alloc_wrapped_request_breaks_order_witness:
  "\<exists>m' a'. Alloc test_mem test_alloc 0xFFFFFFFFFFFFFFED 8 = Some (Inr 0x10018, m', a')
     \<and> flist m' (head a')
          [(0x10006, 0xFFFFFFFFFFF60FEA), (0xFFFF, 0xEA0000DEADBEEF00), (0xFFFFFFFFFFFFF60F, 0)]
     \<and> \<not> ascending
          [(0x10006, 0xFFFFFFFFFFF60FEA), (0xFFFF, 0xEA0000DEADBEEF00 :: size_t),
           (0xFFFFFFFFFFFFF60F, 0)]"
proof -
  obtain m1 a1 where b: "Alloc test_mem test_alloc 0xFFFFFFFFFFFFFFED 8 = Some (Inr 0x10018, m1, a1)"
    "head a1 = 0x10006"
    "flist m1 0x10006
       [(0x10006, 0xFFFFFFFFFFF60FEA), (0xFFFF, 0xEA0000DEADBEEF00), (0xFFFFFFFFFFFFF60F, 0)]"
    by (rule alloc_wrap_result)
  from Alloc_wrapped_request_breaks_order obtain m' a' where
    t: "Alloc test_mem test_alloc 0xFFFFFFFFFFFFFFED 8 = Some (Inr 0x10018, m', a')"
    "\<forall>xs. flist m' (head a') xs \<longrightarrow> \<not> ascending xs"
    by blast
  from b(1) t(1) have "m' = m1" "a' = a1" by simp_all
  with b t show ?thesis by (intro exI [of _ m1] exI [of _ a1]) simp
qed


end
